theory Spec2Isabelle
  imports Complex_Main "HOL-Library.Word"
begin

unbundle bit_operations_syntax

section \<open>The JACK audio output driver (audio/out/ao\_jack.c)\<close>

text \<open>
  The driver queues interleaved float samples, as raw bytes, in a byte FIFO (\<open>play\<close>,
  \<open>write_buffer\<close>) and hands them to the JACK server from a process callback
  (\<open>outputaudio\<close>, \<open>read_buffer\<close>, \<open>deinterleave\<close>, \<open>silence\<close>), one plane per port.

  Conventions of the embedding.
  \<^item> The C globals (\<open>num_ports\<close>, \<open>jack_latency\<close>, \<open>estimate\<close>, \<open>paused\<close>,
    \<open>underrun\<close>, \<open>callback_interval\<close>, \<open>callback_time\<close>, \<open>buffer\<close>) are the fields of
    the record \<open>jack\<close>, passed to every operation and returned updated. Each operation is
    one atomic step; for \<open>reset\<close> the state after each of its statements is given too
    (\<open>reset_trace\<close>). Other interleavings of the callback thread with the player thread
    inside one operation are not modelled.
  \<^item> Counts and lengths (\<open>int\<close>, \<open>jack_nframes_t\<close>, \<open>size_t\<close> in C) are \<open>nat\<close>: they are
    never negative, the buffer holds at most \<open>NUM_CHUNKS * CHUNK_SIZE = 131072\<close> bytes,
    and for the frame counts a JACK server asks for (far below \<open>2 ^ 31\<close>) no C operation
    on them overflows.
  \<^item> A C \<open>float\<close> sample is its 32-bit pattern (\<open>sample\<close>); the bytes of a sample are
    in the machine's order, taken little-endian here. \<open>memset\<close> to 0 gives the pattern 0,
    the float \<open>+0.0\<close>.
  \<^item> A \<open>float\<close> or \<open>double\<close> time is the \<open>real\<close> number it denotes. In the cadence
    tracker of the callback the branch taken depends on the rounding, so every operation
    there is rounded as the machine does it (\<open>fl32\<close>, \<open>fl64\<close> below). In \<open>get_delay\<close> the
    arithmetic is exact: rounding is not modelled there.
  \<^item> A result is an \<open>option\<close> wherever the C has no defined result: \<open>None\<close> stands for a
    null \<open>buffer\<close> dereferenced, an integer division by zero, or a loop that never returns.
\<close>

subsection \<open>Samples and bytes\<close>

type_synonym byte = "8 word"
type_synonym sample = "32 word"
type_synonym planes = "sample list list"

text \<open>\<open>((float *) src)[i]\<close>: the four bytes of one sample, lowest address first.\<close>

definition load_float :: "byte \<Rightarrow> byte \<Rightarrow> byte \<Rightarrow> byte \<Rightarrow> sample" where
  "load_float a b c d =
     ucast a OR push_bit 8 (ucast b) OR push_bit 16 (ucast c) OR push_bit 24 (ucast d)"

definition store_float :: "sample \<Rightarrow> byte list" where
  "store_float w =
     [ucast w, ucast (drop_bit 8 w), ucast (drop_bit 16 w), ucast (drop_bit 24 w)]"

text \<open>A byte run read as a \<open>float\<close> array: whole samples only, a tail of fewer than four
  bytes is no sample.\<close>

fun floats_of :: "byte list \<Rightarrow> sample list" where
  "floats_of (a # b # c # d # rest) = load_float a b c d # floats_of rest"
| "floats_of _ = []"

definition bytes_of :: "sample list \<Rightarrow> byte list" where
  "bytes_of xs = concat (map store_float xs)"

subsection \<open>Single and double precision\<close>

text \<open>
  IEEE 754 binary32 (\<open>float\<close>) and binary64 (\<open>double\<close>) values are real numbers, and
  an operation of the machine is the exact operation followed by rounding to the nearest
  value of the format, ties to the even significand. Every \<open>float\<close> operation is rounded
  to single precision (\<open>FLT_EVAL_METHOD\<close> 0, as with SSE on x86-64).

  \<open>bits n\<close> is the length of \<open>n\<close> in binary and \<open>exponent x\<close> is the \<open>e\<close> with
  \<open>2 ^ e \<le> \<bar>x\<bar> < 2 ^ (e + 1)\<close>. \<open>round_to p emin\<close> rounds to \<open>p\<close> significant bits,
  to multiples of \<open>2 ^ (emin - p + 1)\<close> below \<open>2 ^ emin\<close> (the subnormal values). Overflow
  to an infinity is not modelled: the times of this driver are far below \<open>2 ^ 128\<close>.
\<close>

function bits :: "int \<Rightarrow> int" where
  "bits n = (if n \<le> 0 then 0 else bits (n div 2) + 1)"
  by pat_completeness auto
termination
  by (relation "measure nat") auto

declare bits.simps [simp del]

definition exponent :: "real \<Rightarrow> int" where
  "exponent x =
     (if 1 \<le> \<bar>x\<bar> then bits \<lfloor>\<bar>x\<bar>\<rfloor> - 1
      else - bits (\<lceil>1 / \<bar>x\<bar>\<rceil> - 1))"

definition pow2 :: "int \<Rightarrow> real" where
  "pow2 k = (if 0 \<le> k then 2 ^ nat k else 1 / 2 ^ nat (- k))"

definition round_even :: "real \<Rightarrow> int" where
  "round_even x =
     (let f = \<lfloor>x\<rfloor>; r = x - of_int f
      in if r < 1 / 2 then f else if 1 / 2 < r then f + 1 else if even f then f else f + 1)"

definition round_to :: "nat \<Rightarrow> int \<Rightarrow> real \<Rightarrow> real" where
  "round_to p emin x =
     (if x = 0 then 0
      else (let q = pow2 (max (exponent x) emin - (int p - 1))
            in of_int (round_even (x / q)) * q))"

definition fl32 :: "real \<Rightarrow> real" where
  "fl32 = round_to 24 (- 126)"

definition fl64 :: "real \<Rightarrow> real" where
  "fl64 = round_to 53 (- 1022)"

subsection \<open>The byte FIFO (libavutil's AVFifoBuffer)\<close>

text \<open>
  Modelled from the spec: \<open>AVFifoBuffer\<close> and the \<open>av_fifo_*\<close> functions belong to
  libavutil, a library that is no part of this repository. The spec (3, 4.1) has a byte-capacity-bounded FIFO
  queue with a capacity fixed at creation, a current occupied length and read/write
  cursors; \<open>occupied\<close>, \<open>available_space\<close>, \<open>reset\<close> ("discards all buffered content"),
  a push that copies bytes in and a pop that removes bytes from the front.

  \<open>contents\<close> is the queue, oldest byte first; \<open>rpos\<close> is the read cursor, the offset of
  the oldest byte in the storage of \<open>capacity\<close> bytes. (The write cursor is
  \<open>(rpos + length contents) mod capacity\<close>.)
\<close>

record fifo =
  contents :: "byte list"
  capacity :: nat
  rpos :: nat

definition av_fifo_alloc :: "nat \<Rightarrow> fifo" where
  "av_fifo_alloc n = \<lparr>contents = [], capacity = n, rpos = 0\<rparr>"

definition av_fifo_size :: "fifo \<Rightarrow> nat" where
  "av_fifo_size f = length (contents f)"

definition av_fifo_space :: "fifo \<Rightarrow> nat" where
  "av_fifo_space f = capacity f - av_fifo_size f"

definition av_fifo_reset :: "fifo \<Rightarrow> fifo" where
  "av_fifo_reset f = f\<lparr>contents := [], rpos := 0\<rparr>"

text \<open>
  Modelled from the spec: the push of 4.1 with a null callback: the first \<open>sz\<close> bytes of
  \<open>src\<close> are copied to the back of the queue and \<open>sz\<close> is returned. It does not check
  the free space itself: that is the caller's work (\<open>write_buffer\<close>).
\<close>

definition av_fifo_generic_write :: "fifo \<Rightarrow> byte list \<Rightarrow> nat \<Rightarrow> nat \<times> fifo" where
  "av_fifo_generic_write f src sz = (sz, f\<lparr>contents := contents f @ take sz src\<rparr>)"

text \<open>
  Modelled from the spec: the pop of 4.1, which removes bytes from the front of the
  queue. \<open>av_fifo_drain\<close> drops \<open>sz\<close> bytes from the front and moves the read cursor,
  wrapping at the end of the storage. The spec does not say how the bytes reach the
  caller. \<open>read_buffer\<close> passes a callback, and libavutil's \<open>av_fifo_generic_read\<close> calls
  it once for every run of bytes that is contiguous in the storage: a
  \<open>do ... while (buf_size > 0)\<close> loop whose run is \<open>min (end - rptr) buf_size\<close> bytes long,
  so a read across the end of the storage calls \<open>func\<close> twice. The model keeps this: it is
  why \<open>struct deinterleave\<close> carries \<open>cur_buf\<close> and \<open>pos\<close> from one call to the next. The
  loop is a \<open>partial_function\<close>: where it would not return, the value is \<open>None\<close>.
\<close>

definition av_fifo_drain :: "fifo \<Rightarrow> nat \<Rightarrow> fifo" where
  "av_fifo_drain f sz =
     f\<lparr>contents := drop sz (contents f),
       rpos := (if rpos f + sz \<ge> capacity f then rpos f + sz - capacity f else rpos f + sz)\<rparr>"

partial_function (option) av_fifo_generic_read ::
  "fifo \<Rightarrow> 'd \<Rightarrow> nat \<Rightarrow> ('d \<Rightarrow> byte list \<Rightarrow> nat \<Rightarrow> 'd) \<Rightarrow> (fifo \<times> 'd) option" where
  "av_fifo_generic_read f dest buf_size func =
     (let len = min (capacity f - rpos f) buf_size;
          dest' = func dest (take len (contents f)) len;
          f' = av_fifo_drain f len;
          buf_size' = buf_size - len
      in if buf_size' > 0 then av_fifo_generic_read f' dest' buf_size' func
         else Some (f', dest'))"

declare av_fifo_generic_read.simps [code]

subsection \<open>write\_buffer (lines 71-77)\<close>

definition write_buffer :: "fifo \<Rightarrow> byte list \<Rightarrow> nat \<Rightarrow> nat \<times> fifo" where
  "write_buffer f data len =
     (let free = av_fifo_space f;
          len = (if len > free then free else len)
      in av_fifo_generic_write f data len)"

subsection \<open>deinterleave (lines 81-101)\<close>

text \<open>
  \<open>struct deinterleave\<close>. \<open>di_bufs\<close> stands for the planes the pointers \<open>bufs\<close> point to:
  a write \<open>di->bufs[c][p] = v\<close> is an update of plane \<open>c\<close> at position \<open>p\<close>.
\<close>

record deinterleave_st =
  di_bufs :: planes
  di_num_bufs :: nat
  di_cur_buf :: nat
  di_pos :: nat

text \<open>One round of the \<open>for\<close> loop, for the sample \<open>v = s[i]\<close>.\<close>

definition deinterleave_step :: "deinterleave_st \<Rightarrow> sample \<Rightarrow> deinterleave_st" where
  "deinterleave_step di v =
     (let di1 = di\<lparr>di_bufs := (di_bufs di)[di_cur_buf di := (di_bufs di ! di_cur_buf di)[di_pos di := v]],
                   di_cur_buf := di_cur_buf di + 1\<rparr>
      in if di_cur_buf di1 \<ge> di_num_bufs di1
         then di1\<lparr>di_cur_buf := 0, di_pos := di_pos di1 + 1\<rparr>
         else di1)"

text \<open>\<open>len /= sizeof(float)\<close>, then the loop over \<open>s[0] .. s[len - 1]\<close>.\<close>

definition deinterleave :: "deinterleave_st \<Rightarrow> byte list \<Rightarrow> nat \<Rightarrow> deinterleave_st" where
  "deinterleave di src len = foldl deinterleave_step di (take (len div 4) (floats_of src))"

subsection \<open>silence (lines 139-144)\<close>

text \<open>\<open>memset(p, 0, cnt * sizeof(float))\<close> on a plane of at least \<open>cnt\<close> samples.\<close>

definition memset_zero :: "sample list \<Rightarrow> nat \<Rightarrow> sample list" where
  "memset_zero p cnt = replicate cnt 0 @ drop cnt p"

definition silence :: "planes \<Rightarrow> nat \<Rightarrow> nat \<Rightarrow> planes" where
  "silence bufs cnt num_bufs =
     fold (\<lambda>i b. b[i := memset_zero (b ! i) cnt]) [0..<num_bufs] bufs"

subsection \<open>read\_buffer (lines 116-129)\<close>

text \<open>
  Returns the frame count, the planes and the buffer. \<open>di.bufs\<close> is the pointer \<open>bufs\<close>,
  so \<open>deinterleave\<close> writes into the planes as \<open>silence\<close> left them.
\<close>

definition read_buffer :: "fifo \<Rightarrow> planes \<Rightarrow> nat \<Rightarrow> nat \<Rightarrow> (nat \<times> planes \<times> fifo) option" where
  "read_buffer f bufs cnt num_bufs =
     (let buffered = av_fifo_size f;
          short = cnt * 4 * num_bufs > buffered;
          bufs1 = (if short then silence bufs cnt num_bufs else bufs);
          cnt1 = (if short then buffered div 4 div num_bufs else cnt);
          di = \<lparr>di_bufs = bufs1, di_num_bufs = num_bufs, di_cur_buf = 0, di_pos = 0\<rparr>
      in case av_fifo_generic_read f di (cnt1 * num_bufs * 4) deinterleave of
           None \<Rightarrow> None
         | Some (f', di') \<Rightarrow> Some (cnt1, di_bufs di', f'))"

subsection \<open>The driver's state and operations\<close>

text \<open>The fields of \<open>struct ao\<close> the driver uses, and the driver's globals.\<close>

record ao =
  samplerate :: nat
  bps :: nat
  outburst :: nat

record jack =
  num_ports :: nat
  jack_latency :: real
  estimate :: bool
  paused :: bool
  underrun :: bool
  callback_interval :: real
  callback_time :: real
  buffer :: "fifo option"

text \<open>
  \<open>outputaudio\<close> (lines 154-175). \<open>bufs\<close> are the port buffers that
  \<open>jack_port_get_buffer\<close> returns for the \<open>num_ports\<close> ports, \<open>time_us\<close> is the value
  \<open>mp_time_us()\<close> returns. The C returns 0 always; the model returns the planes and the
  state.

  In the cadence tracker (lines 165-173) \<open>mp_time_us() / 1000000.0\<close> is a division of
  doubles, rounded to single precision by the assignment to the \<open>float now\<close>; the sum,
  the difference and the quotient of floats are single-precision operations; the
  comparisons are made in double precision with the double constant \<open>0.002\<close>.
\<close>

definition outputaudio :: "ao \<Rightarrow> jack \<Rightarrow> planes \<Rightarrow> nat \<Rightarrow> int \<Rightarrow> (planes \<times> jack) option" where
  "outputaudio a s bufs nframes time_us =
     (case (if paused s \<or> underrun s \<or> buffer s = None
            then Some (silence bufs nframes (num_ports s), s)
            else (case read_buffer (the (buffer s)) bufs nframes (num_ports s) of
                    None \<Rightarrow> None
                  | Some (n, bufs', f') \<Rightarrow>
                      Some (bufs', if n < nframes
                                   then s\<lparr>underrun := True, buffer := Some f'\<rparr>
                                   else s\<lparr>buffer := Some f'\<rparr>))) of
        None \<Rightarrow> None
      | Some (bufs', s1) \<Rightarrow>
          Some (bufs',
            if estimate s1 then
              (let now = fl32 (fl64 (fl64 (real_of_int time_us) / 1000000));
                   diff = fl32 (fl32 (callback_time s1 + callback_interval s1) - now);
                   s2 = (if diff > - fl64 0.002 \<and> diff < fl64 0.002
                         then s1\<lparr>callback_time := fl32 (callback_time s1 + callback_interval s1)\<rparr>
                         else s1\<lparr>callback_time := now\<rparr>)
               in s2\<lparr>callback_interval := fl32 (fl32 (real nframes) / fl32 (real (samplerate a)))\<rparr>)
            else s1))"

text \<open>\<open>get_delay\<close> (lines 317-328).\<close>

definition get_delay :: "ao \<Rightarrow> jack \<Rightarrow> int \<Rightarrow> real option" where
  "get_delay a s time_us =
     (case buffer s of
        None \<Rightarrow> None
      | Some f \<Rightarrow>
          (let buffered = av_fifo_size f;
               in_jack = jack_latency s;
               in_jack =
                 (if estimate s \<and> callback_interval s > 0 then
                    (let elapsed = real_of_int time_us / 1000000 - callback_time s;
                         in_jack = in_jack + (callback_interval s - elapsed)
                     in if in_jack < 0 then 0 else in_jack)
                  else in_jack)
           in Some (real buffered / real (bps a) + in_jack)))"

text \<open>
  \<open>reset\<close> (lines 333-338): three statements, in this order. \<open>reset_trace\<close> gives the
  state after each of them: after \<open>paused = 1\<close>, after \<open>av_fifo_reset(buffer)\<close> and after
  \<open>paused = 0\<close>. These are the states a callback can meet while the player thread is
  inside \<open>reset\<close>. \<open>reset\<close> returns the last of them.
\<close>

definition reset_trace :: "jack \<Rightarrow> jack list option" where
  "reset_trace s =
     (let s1 = s\<lparr>paused := True\<rparr>
      in case buffer s1 of
           None \<Rightarrow> None
         | Some f \<Rightarrow>
             (let s2 = s1\<lparr>buffer := Some (av_fifo_reset f)\<rparr>;
                  s3 = s2\<lparr>paused := False\<rparr>
              in Some [s1, s2, s3]))"

definition reset :: "jack \<Rightarrow> jack option" where
  "reset s = map_option last (reset_trace s)"

text \<open>\<open>audio_pause\<close>, \<open>audio_resume\<close>, \<open>get_space\<close> (lines 356-372).\<close>

definition audio_pause :: "jack \<Rightarrow> jack" where
  "audio_pause s = s\<lparr>paused := True\<rparr>"

definition audio_resume :: "jack \<Rightarrow> jack" where
  "audio_resume s = s\<lparr>paused := False\<rparr>"

definition get_space :: "jack \<Rightarrow> nat option" where
  "get_space s = (case buffer s of None \<Rightarrow> None | Some f \<Rightarrow> Some (av_fifo_space f))"

text \<open>
  \<open>play\<close> (lines 377-383). \<open>final_chunk\<close> is \<open>flags & AOPLAY_FINAL_CHUNK\<close>;
  \<open>len % ao->outburst\<close> traps when \<open>outburst\<close> is 0.
\<close>

definition play :: "ao \<Rightarrow> jack \<Rightarrow> byte list \<Rightarrow> nat \<Rightarrow> bool \<Rightarrow> (nat \<times> jack) option" where
  "play a s data len final_chunk =
     (if \<not> final_chunk \<and> outburst a = 0 then None
      else
        (let len = (if \<not> final_chunk then len - len mod outburst a else len);
             s1 = s\<lparr>underrun := False\<rparr>
         in case buffer s1 of
              None \<Rightarrow> None
            | Some f \<Rightarrow>
                (case write_buffer f data len of
                   (n, f') \<Rightarrow> Some (n, s1\<lparr>buffer := Some f'\<rparr>))))"

subsection \<open>Well-formed buffers and planes\<close>

text \<open>
  A buffer is well formed when it holds no more than its capacity and its read cursor
  lies inside the storage. \<open>init\<close> allocates \<open>NUM_CHUNKS * outburst\<close> bytes, where
  \<open>outburst\<close> is a multiple of \<open>channels * sizeof(float)\<close>, and every pop removes whole
  frames, so the capacity and the read cursor are multiples of four: the buffer is aligned.
\<close>

definition fifo_wf :: "fifo \<Rightarrow> bool" where
  "fifo_wf f \<longleftrightarrow> av_fifo_size f \<le> capacity f \<and> (rpos f < capacity f \<or> capacity f = 0)"

definition fifo_aligned :: "fifo \<Rightarrow> bool" where
  "fifo_aligned f \<longleftrightarrow> 4 dvd rpos f \<and> 4 dvd capacity f"

text \<open>The port buffers: \<open>num_bufs\<close> planes of at least \<open>cnt\<close> samples each.\<close>

definition planes_ok :: "planes \<Rightarrow> nat \<Rightarrow> nat \<Rightarrow> bool" where
  "planes_ok bufs cnt num_bufs \<longleftrightarrow>
     num_bufs \<le> length bufs \<and> list_all (\<lambda>p. cnt \<le> length p) (take num_bufs bufs)"

text \<open>The number of samples \<open>deinterleave\<close> has placed since position 0 of plane 0.\<close>

definition di_lin :: "deinterleave_st \<Rightarrow> nat" where
  "di_lin di = di_pos di * di_num_bufs di + di_cur_buf di"

text \<open>The first \<open>cnt\<close> frames of the planes, read back in interleaved order.\<close>

definition interleave :: "planes \<Rightarrow> nat \<Rightarrow> nat \<Rightarrow> sample list" where
  "interleave bufs cnt num_bufs =
     map (\<lambda>k. bufs ! (k mod num_bufs) ! (k div num_bufs)) [0..<cnt * num_bufs]"

subsection \<open>uninit, and runs of driver operations\<close>

text \<open>
  \<open>uninit\<close> (lines 341-351) resets, closes the client and frees the buffer; its sleeps
  are not modelled.
\<close>

definition uninit :: "jack \<Rightarrow> jack option" where
  "uninit s = (case reset s of None \<Rightarrow> None | Some s1 \<Rightarrow> Some (s1\<lparr>buffer := None\<rparr>))"

text \<open>
  The callback and the entries of the driver table that act on an open stream, as
  operations on the state; \<open>run\<close> performs a list of them in order, each one atomically.
\<close>

datatype op =
    Outputaudio planes nat int
  | Play "byte list" nat bool
  | Reset
  | Audio_pause
  | Audio_resume
  | Get_space
  | Get_delay int
  | Uninit

fun is_play :: "op \<Rightarrow> bool" where
  "is_play (Play data len final_chunk) = True"
| "is_play _ = False"

fun step :: "ao \<Rightarrow> jack \<Rightarrow> op \<Rightarrow> jack option" where
  "step a s (Outputaudio bufs nframes time_us) = map_option snd (outputaudio a s bufs nframes time_us)"
| "step a s (Play data len final_chunk) = map_option snd (play a s data len final_chunk)"
| "step a s Reset = reset s"
| "step a s Audio_pause = Some (audio_pause s)"
| "step a s Audio_resume = Some (audio_resume s)"
| "step a s Get_space = map_option (\<lambda>n. s) (get_space s)"
| "step a s (Get_delay time_us) = map_option (\<lambda>d. s) (get_delay a s time_us)"
| "step a s Uninit = uninit s"

fun run :: "ao \<Rightarrow> jack \<Rightarrow> op list \<Rightarrow> jack option" where
  "run a s [] = Some s"
| "run a s (x # xs) = (case step a s x of None \<Rightarrow> None | Some s' \<Rightarrow> run a s' xs)"

text \<open>A state is well formed when its buffer, if it has one, is.\<close>

definition jack_wf :: "jack \<Rightarrow> bool" where
  "jack_wf s = (case buffer s of None \<Rightarrow> True | Some f \<Rightarrow> fifo_wf f)"

subsection \<open>Example states\<close>

text \<open>
  A stereo stream whose buffer holds two whole frames and two more bytes, with a read
  cursor one frame before the end of the storage; and a mono buffer of six bytes.
\<close>

definition demo_ao :: ao where
  "demo_ao = \<lparr>samplerate = 48000, bps = 384000, outburst = 16384\<rparr>"

definition demo_fifo :: fifo where
  "demo_fifo = \<lparr>contents = [1,0,0,0, 2,0,0,0, 3,0,0,0, 4,0,0,0, 5,0], capacity = 32, rpos = 24\<rparr>"

definition demo_jack :: jack where
  "demo_jack = \<lparr>num_ports = 2, jack_latency = 1 / 2, estimate = True, paused = False,
     underrun = False, callback_interval = 1 / 4, callback_time = 0, buffer = Some demo_fifo\<rparr>"

definition odd_fifo :: fifo where
  "odd_fifo = \<lparr>contents = [1,0,0,0, 2,0], capacity = 16, rpos = 0\<rparr>"

subsection \<open>The buffer that init allocates\<close>

text \<open>
  \<open>init\<close> (lines 296-300): \<open>unitsize = channels * sizeof(float)\<close>,
  \<open>outburst = CHUNK_SIZE / unitsize * unitsize\<close>, and a buffer of
  \<open>NUM_CHUNKS * outburst\<close> bytes.
\<close>

definition CHUNK_SIZE :: nat where
  "CHUNK_SIZE = 16 * 1024"

definition NUM_CHUNKS :: nat where
  "NUM_CHUNKS = 8"

definition init_outburst :: "nat \<Rightarrow> nat" where
  "init_outburst channels = (let unitsize = channels * 4 in CHUNK_SIZE div unitsize * unitsize)"

definition init_buffer :: "nat \<Rightarrow> fifo" where
  "init_buffer channels = av_fifo_alloc (NUM_CHUNKS * init_outburst channels)"

text \<open>The invariant of the driver's state: the buffer, if there is one, is well formed
  and aligned.\<close>

definition jack_ok :: "jack \<Rightarrow> bool" where
  "jack_ok s = (case buffer s of None \<Rightarrow> True | Some f \<Rightarrow> fifo_wf f \<and> fifo_aligned f)"

subsection \<open>The delay formula as the specification words it\<close>

text \<open>
  The spec (4.5): \<open>delay = occupied_bytes / bytes_per_second + hardware_base_latency +
  max(0, nominal_period - (now - last_predicted_fire_time))\<close>, with \<open>callback_interval\<close> the
  nominal period and \<open>callback_time\<close> the last predicted fire time. It is compared with
  \<open>get_delay\<close> in C6 and is no part of the model of the code.
\<close>

definition claimed_delay :: "ao \<Rightarrow> jack \<Rightarrow> fifo \<Rightarrow> int \<Rightarrow> real" where
  "claimed_delay a s f time_us =
     real (av_fifo_size f) / real (bps a) + jack_latency s
       + max 0 (callback_interval s - (real_of_int time_us / 1000000 - callback_time s))"

section \<open>Lemmas\<close>

subsection \<open>Rounding\<close>

text \<open>\<open>exponent\<close> is the binary exponent, and a rounded value is within half a unit in the
  last place of the exact one.\<close>

lemma bits_nonneg: "0 \<le> bits n"
  by (induction n rule: bits.induct) (subst bits.simps, auto)

lemma bits_pos: "0 < n \<Longrightarrow> 0 < bits n"
  using bits_nonneg[of "n div 2"] by (subst bits.simps) simp

lemma bits_bounds: "0 < n \<Longrightarrow> 2 ^ nat (bits n - 1) \<le> n \<and> n < 2 ^ nat (bits n)"
proof (induction n rule: bits.induct)
  case (1 n)
  show ?case
  proof (cases "n = 1")
    case True
    then show ?thesis by (simp add: bits.simps)
  next
    case False
    with 1 have h: "0 < n div 2" by simp
    then have ih: "2 ^ nat (bits (n div 2) - 1) \<le> n div 2" "n div 2 < 2 ^ nat (bits (n div 2))"
      using 1 by auto
    have b: "bits n = bits (n div 2) + 1" using 1(2) by (subst bits.simps) simp
    have p: "0 < bits (n div 2)" using h by (rule bits_pos)
    then have "nat (bits (n div 2)) = Suc (nat (bits (n div 2) - 1))" by simp
    then have e: "(2::int) ^ nat (bits (n div 2)) = 2 * 2 ^ nat (bits (n div 2) - 1)"
      by simp
    have s: "nat (bits (n div 2) + 1) = Suc (nat (bits (n div 2)))" using p by simp
    show ?thesis unfolding b s using ih e by simp linarith
  qed
qed

lemma pow2_pos: "0 < pow2 k" by (simp add: pow2_def)

lemma pow2_Suc: "pow2 (k + 1) = 2 * pow2 k"
proof (cases "0 \<le> k")
  case True
  then have "nat (k + 1) = Suc (nat k)" by simp
  then show ?thesis using True by (simp add: pow2_def)
next
  case False
  then have "nat (- k) = Suc (nat (- (k + 1)))" by simp
  then show ?thesis using False by (simp add: pow2_def)
qed

lemma exponent_bounds:
  assumes "x \<noteq> 0"
  shows "pow2 (exponent x) \<le> \<bar>x\<bar> \<and> \<bar>x\<bar> < 2 * pow2 (exponent x)"
proof (cases "1 \<le> \<bar>x\<bar>")
  case True
  define n where "n = \<lfloor>\<bar>x\<bar>\<rfloor>"
  have n: "0 < n" "of_int n \<le> \<bar>x\<bar>" "\<bar>x\<bar> < of_int (n + 1)" using True by (auto simp: n_def)
  from bits_bounds[OF n(1)] have b: "2 ^ nat (bits n - 1) \<le> n" "n + 1 \<le> 2 ^ nat (bits n)" by auto
  have e: "exponent x = bits n - 1" using True by (simp add: exponent_def n_def)
  have p: "0 \<le> bits n - 1" using bits_pos[OF n(1)] by simp
  have q: "pow2 (bits n - 1) = of_int (2 ^ nat (bits n - 1))" using p by (simp add: pow2_def)
  have q2: "2 * pow2 (bits n - 1) = of_int (2 ^ nat (bits n))"
    using pow2_Suc[of "bits n - 1"] bits_nonneg[of n] by (simp add: pow2_def)
  have "of_int (2 ^ nat (bits n - 1)) \<le> (of_int n :: real)" using b(1) by (simp only: of_int_le_iff)
  moreover have "(of_int (n + 1) :: real) \<le> of_int (2 ^ nat (bits n))" using b(2) by (simp only: of_int_le_iff)
  ultimately have "pow2 (bits n - 1) \<le> \<bar>x\<bar>" "\<bar>x\<bar> < 2 * pow2 (bits n - 1)"
    unfolding q2 unfolding q using n by linarith+
  then show ?thesis unfolding e by simp
next
  case False
  define y where "y = 1 / \<bar>x\<bar>"
  define m where "m = \<lceil>y\<rceil> - 1"
  have y: "1 < y" using False assms by (simp add: y_def)
  have m: "0 < m" "of_int m < y" "y \<le> of_int (m + 1)" using y by (auto simp: m_def) linarith+
  from bits_bounds[OF m(1)] have b: "2 ^ nat (bits m - 1) \<le> m" "m + 1 \<le> 2 ^ nat (bits m)" by auto
  have e: "exponent x = - bits m" using False by (simp add: exponent_def m_def y_def)
  have bp: "0 < bits m" using bits_pos[OF m(1)] .
  have q: "pow2 (- bits m) = 1 / of_int (2 ^ nat (bits m))" using bp by (simp add: pow2_def)
  have "nat (bits m) = Suc (nat (bits m - 1))" using bp by simp
  then have "(2::real) ^ nat (bits m) = 2 * 2 ^ nat (bits m - 1)" by simp
  then have q2: "2 * pow2 (- bits m) = 1 / of_int (2 ^ nat (bits m - 1))"
    using bp by (simp add: pow2_def)
  have l1: "of_int (2 ^ nat (bits m - 1)) \<le> (of_int m :: real)" using b(1) by (simp only: of_int_le_iff)
  have l2: "(of_int (m + 1) :: real) \<le> of_int (2 ^ nat (bits m))" using b(2) by (simp only: of_int_le_iff)
  have x: "\<bar>x\<bar> = 1 / y" by (simp add: y_def)
  have u: "y \<le> of_int (2 ^ nat (bits m))" using l2 m(3) by linarith
  have l: "of_int (2 ^ nat (bits m - 1)) < y" using l1 m(2) by linarith
  have z: "(0::real) < of_int (2 ^ nat (bits m - 1))" by simp
  have "1 / of_int (2 ^ nat (bits m)) \<le> 1 / y" using u y by (intro divide_left_mono) auto
  moreover have "1 / y < 1 / of_int (2 ^ nat (bits m - 1))" using l z y
    by (intro divide_strict_left_mono) (auto intro: mult_pos_pos)
  ultimately have "pow2 (- bits m) \<le> \<bar>x\<bar>" "\<bar>x\<bar> < 2 * pow2 (- bits m)"
    unfolding q2 unfolding q x by simp_all
  then show ?thesis unfolding e by simp
qed

lemma round_even_nearest: "\<bar>of_int (round_even x) - x\<bar> \<le> 1 / 2"
  unfolding round_even_def Let_def by (auto; linarith)

lemma round_to_near:
  "\<bar>round_to p emin x - x\<bar> \<le> pow2 (max (exponent x) emin - (int p - 1)) / 2"
proof (cases "x = 0")
  case True then show ?thesis using pow2_pos[of "max (exponent 0) emin - (int p - 1)"] by (simp add: round_to_def)
next
  case False
  define q where "q = pow2 (max (exponent x) emin - (int p - 1))"
  have q: "0 < q" by (simp add: q_def pow2_pos)
  have "\<bar>of_int (round_even (x / q)) * q - x\<bar> = \<bar>of_int (round_even (x / q)) - x / q\<bar> * q"
  proof -
    have "of_int (round_even (x / q)) * q - x = (of_int (round_even (x / q)) - x / q) * q"
      using q by (simp add: left_diff_distrib)
    then show ?thesis using q by (simp add: abs_mult)
  qed
  also have "\<dots> \<le> 1 / 2 * q" using round_even_nearest[of "x / q"] q by (intro mult_right_mono) auto
  finally show ?thesis using False by (simp add: round_to_def Let_def q_def)
qed

lemma fl32_near: "\<bar>fl32 x - x\<bar> \<le> pow2 (max (exponent x) (- 126) - 23) / 2"
  using round_to_near[of 24 "- 126" x] by (simp add: fl32_def)

lemma fl64_near: "\<bar>fl64 x - x\<bar> \<le> pow2 (max (exponent x) (- 1022) - 52) / 2"
  using round_to_near[of 53 "- 1022" x] by (simp add: fl64_def)

subsection \<open>Bytes and samples\<close>

lemma store_load: "store_float (load_float a b c d) = [a, b, c, d]"
  unfolding store_float_def load_float_def
  by (simp, intro conjI; rule bit_word_eqI; auto simp add: bit_simps dest: bit_imp_le_length)

lemma length_floats_of: "length (floats_of bs) = length bs div 4"
  by (induction bs rule: floats_of.induct) auto

lemma floats_of_short: "length bs < 4 \<Longrightarrow> floats_of bs = []"
  using length_floats_of[of bs] by simp

lemma take_4_plus: "take (4 + n) (a # b # c # d # r) = a # b # c # d # take n r"
  by (simp add: take_Cons')

lemma bytes_of_floats_of: "bytes_of (floats_of bs) = take (length bs div 4 * 4) bs"
proof (induction bs rule: floats_of.induct)
  case (1 a b c d rest)
  have "length (a # b # c # d # rest) div 4 * 4 = 4 + length rest div 4 * 4" by simp
  then show ?case using 1 by (simp add: bytes_of_def store_load take_4_plus)
qed (simp_all add: bytes_of_def)

lemma dvd4_Suc4: "4 dvd Suc (Suc (Suc (Suc n))) \<longleftrightarrow> 4 dvd n"
  by presburger

lemma dvd4_small: "\<not> 4 dvd Suc 0" "\<not> 4 dvd Suc (Suc 0)" "\<not> 4 dvd Suc (Suc (Suc 0))"
  by presburger+

lemma floats_of_append: "4 dvd length xs \<Longrightarrow> floats_of (xs @ ys) = floats_of xs @ floats_of ys"
  by (induction xs rule: floats_of.induct) (auto simp: dvd4_Suc4 dvd4_small)

lemma floats_of_take: "take n (floats_of bs) = floats_of (take (4 * n) bs)"
proof (induction bs arbitrary: n rule: floats_of.induct)
  case (1 a b c d rest)
  show ?case
  proof (cases n)
    case 0 then show ?thesis by simp
  next
    case (Suc m)
    then have "4 * n = 4 + 4 * m" by simp
    then show ?thesis using 1[of m] Suc by (simp add: take_4_plus)
  qed
qed (simp_all add: floats_of_short)

subsection \<open>One call of deinterleave\<close>

lemma step_num_bufs: "di_num_bufs (deinterleave_step di v) = di_num_bufs di"
  by (simp add: deinterleave_step_def Let_def)

lemma step_cursor:
  assumes "di_cur_buf di < di_num_bufs di"
  shows "di_cur_buf (deinterleave_step di v) < di_num_bufs di"
    and "di_lin (deinterleave_step di v) = di_lin di + 1"
  using assms by (auto simp: deinterleave_step_def Let_def di_lin_def)

lemma nth_update_cases: "xs[i := y] ! q = (if q = i \<and> i < length xs then y else xs ! q)"
  by (cases "i < length xs") (auto simp: nth_list_update list_update_beyond)

lemma step_shape:
  "length (di_bufs (deinterleave_step di v)) = length (di_bufs di)"
  "length (di_bufs (deinterleave_step di v) ! q) = length (di_bufs di ! q)"
  by (auto simp: deinterleave_step_def Let_def nth_update_cases)

lemma step_frame:
  assumes "q \<noteq> di_cur_buf di \<or> j \<noteq> di_pos di"
  shows "di_bufs (deinterleave_step di v) ! q ! j = di_bufs di ! q ! j"
  using assms by (auto simp: deinterleave_step_def Let_def nth_update_cases)

lemma step_write:
  assumes "di_cur_buf di < length (di_bufs di)" "di_pos di < length (di_bufs di ! di_cur_buf di)"
  shows "di_bufs (deinterleave_step di v) ! di_cur_buf di ! di_pos di = v"
  using assms by (auto simp: deinterleave_step_def Let_def)

lemma lin_eq_iff:
  assumes "q < n" "c < n"
  shows "j * n + q = p * n + c \<longleftrightarrow> q = c \<and> j = (p::nat)"
proof
  assume e: "j * n + q = p * n + c"
  have "(j * n + q) mod n = q" "(p * n + c) mod n = c" using assms by simp_all
  then have qc: "q = c" using e by simp
  have "(j * n + q) div n = j" "(p * n + c) div n = p" using assms by simp_all
  moreover have "0 < n" using assms by simp
  ultimately show "q = c \<and> j = p" using e qc by simp
qed simp

lemma foldl_step_cursor:
  assumes "di_cur_buf di < di_num_bufs di"
  shows "di_num_bufs (foldl deinterleave_step di xs) = di_num_bufs di
       \<and> di_cur_buf (foldl deinterleave_step di xs) < di_num_bufs di
       \<and> di_lin (foldl deinterleave_step di xs) = di_lin di + length xs"
  using assms
proof (induction xs arbitrary: di)
  case Nil then show ?case by simp
next
  case (Cons x xs)
  have c: "di_cur_buf (deinterleave_step di x) < di_num_bufs (deinterleave_step di x)"
    using step_cursor(1)[OF Cons.prems] by (simp add: step_num_bufs)
  show ?case using Cons.IH[OF c] step_cursor(2)[OF Cons.prems, of x]
    by (simp add: step_num_bufs)
qed

lemma foldl_step_shape:
  "length (di_bufs (foldl deinterleave_step di xs)) = length (di_bufs di)
   \<and> length (di_bufs (foldl deinterleave_step di xs) ! q) = length (di_bufs di ! q)"
  by (induction xs arbitrary: di) (simp_all add: step_shape)

lemma cur_pos_of_lin:
  assumes "di_cur_buf di < di_num_bufs di"
  shows "di_cur_buf di = di_lin di mod di_num_bufs di" "di_pos di = di_lin di div di_num_bufs di"
  using assms by (simp_all add: di_lin_def)

lemma foldl_step_frame:
  assumes "di_cur_buf di < di_num_bufs di"
    and "\<forall>k. di_lin di \<le> k \<and> k < di_lin di + length xs \<longrightarrow> q \<noteq> k mod di_num_bufs di \<or> j \<noteq> k div di_num_bufs di"
  shows "di_bufs (foldl deinterleave_step di xs) ! q ! j = di_bufs di ! q ! j"
  using assms
proof (induction xs arbitrary: di)
  case Nil then show ?case by simp
next
  case (Cons x xs)
  let ?d = "deinterleave_step di x"
  have c: "di_cur_buf ?d < di_num_bufs ?d"
    using step_cursor(1)[OF Cons.prems(1)] by (simp add: step_num_bufs)
  have l: "di_lin ?d = di_lin di + 1" by (rule step_cursor(2)[OF Cons.prems(1)])
  have r: "\<forall>k. di_lin ?d \<le> k \<and> k < di_lin ?d + length xs \<longrightarrow> q \<noteq> k mod di_num_bufs ?d \<or> j \<noteq> k div di_num_bufs ?d"
    using Cons.prems(2) l by (auto simp: step_num_bufs)
  have "q \<noteq> di_lin di mod di_num_bufs di \<or> j \<noteq> di_lin di div di_num_bufs di"
    using Cons.prems(2) by simp
  then have "q \<noteq> di_cur_buf di \<or> j \<noteq> di_pos di"
    using cur_pos_of_lin[OF Cons.prems(1)] by simp
  then have "di_bufs ?d ! q ! j = di_bufs di ! q ! j" by (rule step_frame)
  then show ?case using Cons.IH[OF c r] by simp
qed

lemma foldl_step_write:
  assumes "di_cur_buf di < di_num_bufs di" "q < di_num_bufs di"
    and "di_lin di \<le> j * di_num_bufs di + q" "j * di_num_bufs di + q < di_lin di + length xs"
    and "q < length (di_bufs di)" "j < length (di_bufs di ! q)"
  shows "di_bufs (foldl deinterleave_step di xs) ! q ! j = xs ! (j * di_num_bufs di + q - di_lin di)"
  using assms
proof (induction xs arbitrary: di)
  case Nil then show ?case by simp
next
  case (Cons x xs)
  let ?d = "deinterleave_step di x"
  have c: "di_cur_buf ?d < di_num_bufs ?d" "q < di_num_bufs ?d"
    using step_cursor(1)[OF Cons.prems(1)] Cons.prems(2) by (simp_all add: step_num_bufs)
  have l: "di_lin ?d = di_lin di + 1" by (rule step_cursor(2)[OF Cons.prems(1)])
  show ?case
  proof (cases "j * di_num_bufs di + q = di_lin di")
    case True
    then have qj: "q = di_cur_buf di" "j = di_pos di"
      using lin_eq_iff[OF Cons.prems(2) Cons.prems(1), of j "di_pos di"] by (auto simp: di_lin_def)
    have w: "di_bufs ?d ! q ! j = x" unfolding qj
      by (rule step_write) (use Cons.prems(5,6) qj in auto)
    have "di_bufs (foldl deinterleave_step ?d xs) ! q ! j = di_bufs ?d ! q ! j"
    proof (rule foldl_step_frame[OF c(1)], intro allI impI)
      fix k assume k: "di_lin ?d \<le> k \<and> k < di_lin ?d + length xs"
      show "q \<noteq> k mod di_num_bufs ?d \<or> j \<noteq> k div di_num_bufs ?d"
      proof (rule ccontr)
        assume "\<not> (q \<noteq> k mod di_num_bufs ?d \<or> j \<noteq> k div di_num_bufs ?d)"
        then have "j * di_num_bufs di + q = k" by (simp add: step_num_bufs)
        then show False using k l True by simp
      qed
    qed
    then show ?thesis using w True by simp
  next
    case False
    then have gt: "di_lin ?d \<le> j * di_num_bufs ?d + q" "j * di_num_bufs ?d + q < di_lin ?d + length xs"
      using Cons.prems(3,4) l by (auto simp: step_num_bufs)
    have sh: "q < length (di_bufs ?d)" "j < length (di_bufs ?d ! q)"
      using Cons.prems(5,6) by (simp_all add: step_shape)
    have "di_bufs (foldl deinterleave_step ?d xs) ! q ! j = xs ! (j * di_num_bufs ?d + q - di_lin ?d)"
      by (rule Cons.IH[OF c gt sh])
    moreover have "(x # xs) ! (j * di_num_bufs di + q - di_lin di) = xs ! (j * di_num_bufs ?d + q - di_lin ?d)"
      using False Cons.prems(3) l by (simp add: step_num_bufs nth_Cons')
    ultimately show ?thesis by simp
  qed
qed

lemma deinterleave_cursor:
  assumes "di_cur_buf di < di_num_bufs di"
  shows "di_num_bufs (deinterleave di src len) = di_num_bufs di"
    and "di_cur_buf (deinterleave di src len) < di_num_bufs di"
    and "di_lin di \<le> di_lin (deinterleave di src len)"
    and "di_lin (deinterleave di src len) \<le> di_lin di + len div 4"
  using foldl_step_cursor[OF assms, of "take (len div 4) (floats_of src)"]
  by (simp_all add: deinterleave_def)

lemma deinterleave_shape:
  "length (di_bufs (deinterleave di src len)) = length (di_bufs di)"
  "length (di_bufs (deinterleave di src len) ! q) = length (di_bufs di ! q)"
  using foldl_step_shape[of di "take (len div 4) (floats_of src)" q]
  by (simp_all add: deinterleave_def)

lemma deinterleave_frame:
  assumes "di_cur_buf di < di_num_bufs di"
    and "\<forall>k. di_lin di \<le> k \<and> k < di_lin di + len div 4 \<longrightarrow> q \<noteq> k mod di_num_bufs di \<or> j \<noteq> k div di_num_bufs di"
  shows "di_bufs (deinterleave di src len) ! q ! j = di_bufs di ! q ! j"
  unfolding deinterleave_def
  by (rule foldl_step_frame[OF assms(1)]) (use assms(2) in auto)

lemma deinterleave_take:
  "deinterleave di (take len src) len = deinterleave di src len"
proof -
  have "take (len div 4) (floats_of (take len src)) = floats_of (take (4 * (len div 4)) (take len src))"
    by (rule floats_of_take)
  also have "\<dots> = floats_of (take (4 * (len div 4)) src)"
    by (simp add: min_def)
  also have "\<dots> = take (len div 4) (floats_of src)"
    by (rule floats_of_take[symmetric])
  finally show ?thesis by (simp add: deinterleave_def)
qed

lemma deinterleave_append:
  assumes "4 dvd l" "l \<le> length src"
  shows "deinterleave (deinterleave di (take l src) l) (take m (drop l src)) m
         = deinterleave di src (l + m)"
proof -
  have a: "take (l div 4) (floats_of (take l src)) = floats_of (take l src)"
    using assms by (simp add: length_floats_of)
  have b: "take (m div 4) (floats_of (take m (drop l src))) = floats_of (take (4 * (m div 4)) (drop l src))"
    by (simp add: floats_of_take min_def)
  have d: "(l + m) div 4 = l div 4 + m div 4" using assms(1) by (simp add: div_add1_eq dvd_eq_mod_eq_0)
  have "take ((l + m) div 4) (floats_of src) = floats_of (take (l + 4 * (m div 4)) src)"
    using assms(1) by (simp add: floats_of_take d distrib_left)
  also have "\<dots> = floats_of (take l src @ take (4 * (m div 4)) (drop l src))"
    by (simp add: take_add)
  also have "\<dots> = floats_of (take l src) @ floats_of (take (4 * (m div 4)) (drop l src))"
    by (rule floats_of_append) (use assms in simp)
  finally show ?thesis by (simp add: deinterleave_def a b)
qed

subsection \<open>The FIFO and silence\<close>

lemma planes_ok_iff:
  "planes_ok bufs cnt num_bufs \<longleftrightarrow>
     num_bufs \<le> length bufs \<and> (\<forall>q<num_bufs. cnt \<le> length (bufs ! q))"
  by (auto simp: planes_ok_def list_all_length)

lemma read_once:
  assumes "n \<le> capacity f - rpos f"
  shows "av_fifo_generic_read f dest n func =
           Some (av_fifo_drain f n, func dest (take n (contents f)) n)"
  using assms by (subst av_fifo_generic_read.simps) (simp add: Let_def min_def)

lemma read_twice:
  assumes "capacity f - rpos f < n" "rpos f < capacity f" "n \<le> capacity f"
  shows "av_fifo_generic_read f dest n func =
           Some (av_fifo_drain (av_fifo_drain f (capacity f - rpos f)) (n - (capacity f - rpos f)),
                 func (func dest (take (capacity f - rpos f) (contents f)) (capacity f - rpos f))
                      (take (n - (capacity f - rpos f)) (drop (capacity f - rpos f) (contents f)))
                      (n - (capacity f - rpos f)))"
proof -
  let ?l = "capacity f - rpos f"
  let ?f = "av_fifo_drain f ?l"
  have r0: "rpos ?f = 0" "capacity ?f = capacity f" "contents ?f = drop ?l (contents f)"
    using assms by (simp_all add: av_fifo_drain_def)
  have "n - ?l \<le> capacity ?f - rpos ?f" using assms r0 by simp
  from read_once[OF this, of "func dest (take ?l (contents f)) ?l" func]
  show ?thesis using assms r0
    by (subst av_fifo_generic_read.simps) (simp add: Let_def min_def)
qed

lemma drain_drain:
  assumes "rpos f < capacity f" "capacity f - rpos f < n" "n \<le> capacity f"
  shows "av_fifo_drain (av_fifo_drain f (capacity f - rpos f)) (n - (capacity f - rpos f)) = av_fifo_drain f n"
  using assms by (simp add: av_fifo_drain_def)

lemma generic_read_fifo:
  assumes "fifo_wf f" "n \<le> av_fifo_size f"
  shows "\<exists>d. av_fifo_generic_read f dest n func = Some (av_fifo_drain f n, d)"
proof (cases "n \<le> capacity f - rpos f")
  case True
  then show ?thesis by (simp add: read_once)
next
  case False
  then have a: "capacity f - rpos f < n" "rpos f < capacity f" "n \<le> capacity f"
    using assms by (auto simp: fifo_wf_def)
  show ?thesis using read_twice[OF a, of dest func] drain_drain[OF a(2) a(1) a(3)] by simp
qed

lemma drain_wf:
  assumes "fifo_wf f" "n \<le> av_fifo_size f"
  shows "fifo_wf (av_fifo_drain f n)"
  using assms by (auto simp: fifo_wf_def av_fifo_drain_def av_fifo_size_def)

lemma drain_aligned:
  assumes "fifo_aligned f" "4 dvd n"
  shows "fifo_aligned (av_fifo_drain f n)"
  using assms by (auto simp: fifo_aligned_def av_fifo_drain_def)

lemma silence_Suc:
  "silence bufs cnt (Suc n) = (silence bufs cnt n)[n := memset_zero (silence bufs cnt n ! n) cnt]"
  by (simp add: silence_def)

lemma silence_length: "length (silence bufs cnt n) = length bufs"
  by (induction n) (simp_all add: silence_Suc, simp add: silence_def)

lemma silence_nth:
  "silence bufs cnt n ! q = (if q < n \<and> q < length bufs then memset_zero (bufs ! q) cnt else bufs ! q)"
proof (induction n)
  case 0 then show ?case by (simp add: silence_def)
next
  case (Suc n)
  then show ?case by (auto simp: silence_Suc nth_update_cases silence_length)
qed

lemma memset_zero_nth:
  "cnt \<le> length p \<Longrightarrow> memset_zero p cnt ! j = (if j < cnt then 0 else p ! j)"
  by (auto simp: memset_zero_def nth_append)

subsection \<open>Reading through deinterleave\<close>

lemma read_deinterleave_aligned:
  assumes "fifo_wf f" "fifo_aligned f" "n \<le> av_fifo_size f"
  shows "av_fifo_generic_read f di n deinterleave
         = Some (av_fifo_drain f n, deinterleave di (contents f) n)"
proof (cases "n \<le> capacity f - rpos f")
  case True
  then show ?thesis by (simp add: read_once deinterleave_take)
next
  case False
  then have a: "capacity f - rpos f < n" "rpos f < capacity f" "n \<le> capacity f"
    using assms by (auto simp: fifo_wf_def)
  let ?l = "capacity f - rpos f"
  have l: "4 dvd ?l" "?l \<le> length (contents f)"
    using assms a by (auto simp: fifo_aligned_def av_fifo_size_def)
  have "deinterleave (deinterleave di (take ?l (contents f)) ?l) (take (n - ?l) (drop ?l (contents f))) (n - ?l)
        = deinterleave di (contents f) (?l + (n - ?l))"
    by (rule deinterleave_append[OF l])
  then show ?thesis using read_twice[OF a, of di deinterleave] drain_drain[OF a(2) a(1) a(3)] a by simp
qed

lemma read_deinterleave_general:
  assumes "fifo_wf f" "n \<le> av_fifo_size f" "di_cur_buf di < di_num_bufs di"
  shows "\<exists>di'. av_fifo_generic_read f di n deinterleave = Some (av_fifo_drain f n, di')
           \<and> length (di_bufs di') = length (di_bufs di)
           \<and> (\<forall>q. length (di_bufs di' ! q) = length (di_bufs di ! q))
           \<and> (\<forall>q j. (\<forall>k. di_lin di \<le> k \<and> k < di_lin di + n div 4 \<longrightarrow>
                          q \<noteq> k mod di_num_bufs di \<or> j \<noteq> k div di_num_bufs di)
                    \<longrightarrow> di_bufs di' ! q ! j = di_bufs di ! q ! j)"
proof (cases "n \<le> capacity f - rpos f")
  case True
  let ?d = "deinterleave di (take n (contents f)) n"
  have "av_fifo_generic_read f di n deinterleave = Some (av_fifo_drain f n, ?d)"
    using True by (simp add: read_once)
  moreover have "\<forall>q j. (\<forall>k. di_lin di \<le> k \<and> k < di_lin di + n div 4 \<longrightarrow>
                          q \<noteq> k mod di_num_bufs di \<or> j \<noteq> k div di_num_bufs di)
                    \<longrightarrow> di_bufs ?d ! q ! j = di_bufs di ! q ! j"
    using deinterleave_frame[OF assms(3)] by blast
  ultimately show ?thesis by (simp add: deinterleave_shape)
next
  case False
  then have a: "capacity f - rpos f < n" "rpos f < capacity f" "n \<le> capacity f"
    using assms by (auto simp: fifo_wf_def)
  let ?l = "capacity f - rpos f"
  let ?d1 = "deinterleave di (take ?l (contents f)) ?l"
  let ?d2 = "deinterleave ?d1 (take (n - ?l) (drop ?l (contents f))) (n - ?l)"
  have r: "av_fifo_generic_read f di n deinterleave = Some (av_fifo_drain f n, ?d2)"
    using read_twice[OF a, of di deinterleave] drain_drain[OF a(2) a(1) a(3)] by simp
  have c1: "di_cur_buf ?d1 < di_num_bufs ?d1" "di_num_bufs ?d1 = di_num_bufs di"
    "di_lin di \<le> di_lin ?d1" "di_lin ?d1 \<le> di_lin di + ?l div 4"
    using deinterleave_cursor[OF assms(3)] by simp_all
  have le: "?l div 4 + (n - ?l) div 4 \<le> n div 4"
  proof -
    have "(?l div 4 + (n - ?l) div 4) * 4 \<le> ?l + (n - ?l)"
      by (simp add: distrib_right add_mono)
    also have "\<dots> = n" using a(1) by simp
    finally show ?thesis by (simp add: less_eq_div_iff_mult_less_eq)
  qed
  have fr: "di_bufs ?d2 ! q ! j = di_bufs di ! q ! j"
    if h: "\<forall>k. di_lin di \<le> k \<and> k < di_lin di + n div 4 \<longrightarrow>
                          q \<noteq> k mod di_num_bufs di \<or> j \<noteq> k div di_num_bufs di" for q j
  proof -
    have "di_bufs ?d2 ! q ! j = di_bufs ?d1 ! q ! j"
      by (rule deinterleave_frame[OF c1(1)]) (use h c1 le in auto)
    also have "\<dots> = di_bufs di ! q ! j"
      by (rule deinterleave_frame[OF assms(3)]) (use h le in auto)
    finally show ?thesis .
  qed
  show ?thesis using r fr by (simp add: deinterleave_shape)
qed

lemma short_count:
  assumes "av_fifo_size f < cnt * 4 * num_bufs"
  shows "av_fifo_size f div 4 div num_bufs = av_fifo_size f div (num_bufs * 4)"
    and "av_fifo_size f div (num_bufs * 4) * num_bufs * 4 \<le> av_fifo_size f"
    and "av_fifo_size f div (num_bufs * 4) < cnt"
    and "0 < num_bufs"
proof -
  show n: "0 < num_bufs" using assms by (cases num_bufs) simp_all
  show "av_fifo_size f div 4 div num_bufs = av_fifo_size f div (num_bufs * 4)"
    using div_mult2_eq[of "av_fifo_size f" 4 num_bufs] by (simp add: mult.commute)
  show "av_fifo_size f div (num_bufs * 4) * num_bufs * 4 \<le> av_fifo_size f"
    by (simp add: mult.assoc)
  have "av_fifo_size f < cnt * (num_bufs * 4)" using assms by (simp add: mult.commute mult.left_commute)
  then show "av_fifo_size f div (num_bufs * 4) < cnt"
    using n by (simp add: less_mult_imp_div_less)
qed

lemma read_buffer_pop:
  assumes "fifo_wf f"
  shows "\<exists>r. read_buffer f bufs cnt num_bufs =
           Some (if av_fifo_size f < cnt * 4 * num_bufs then av_fifo_size f div 4 div num_bufs else cnt, r,
                 av_fifo_drain f ((if av_fifo_size f < cnt * 4 * num_bufs then av_fifo_size f div 4 div num_bufs else cnt) * num_bufs * 4))"
proof (cases "av_fifo_size f < cnt * 4 * num_bufs")
  case True
  let ?c = "av_fifo_size f div 4 div num_bufs"
  have "?c * num_bufs * 4 \<le> av_fifo_size f" using short_count(1,2)[OF True] by simp
  from generic_read_fifo[OF assms this,
      of "\<lparr>di_bufs = silence bufs cnt num_bufs, di_num_bufs = num_bufs, di_cur_buf = 0, di_pos = 0\<rparr>" deinterleave]
  obtain d where "av_fifo_generic_read f
      \<lparr>di_bufs = silence bufs cnt num_bufs, di_num_bufs = num_bufs, di_cur_buf = 0, di_pos = 0\<rparr>
      (?c * num_bufs * 4) deinterleave = Some (av_fifo_drain f (?c * num_bufs * 4), d)" by blast
  then show ?thesis using True by (simp add: read_buffer_def Let_def)
next
  case False
  then have "cnt * num_bufs * 4 \<le> av_fifo_size f" by (simp add: mult.commute mult.left_commute)
  from generic_read_fifo[OF assms this,
      of "\<lparr>di_bufs = bufs, di_num_bufs = num_bufs, di_cur_buf = 0, di_pos = 0\<rparr>" deinterleave]
  obtain d where "av_fifo_generic_read f
      \<lparr>di_bufs = bufs, di_num_bufs = num_bufs, di_cur_buf = 0, di_pos = 0\<rparr>
      (cnt * num_bufs * 4) deinterleave = Some (av_fifo_drain f (cnt * num_bufs * 4), d)" by blast
  then show ?thesis using False by (simp add: read_buffer_def Let_def)
qed

lemma read_buffer_short:
  assumes "fifo_wf f" "av_fifo_size f < cnt * 4 * num_bufs" "planes_ok bufs cnt num_bufs"
  shows "\<exists>r. read_buffer f bufs cnt num_bufs =
           Some (av_fifo_size f div (num_bufs * 4), r,
                 av_fifo_drain f (av_fifo_size f div (num_bufs * 4) * num_bufs * 4))
         \<and> (\<forall>q<num_bufs. \<forall>j. av_fifo_size f div (num_bufs * 4) \<le> j \<and> j < cnt \<longrightarrow> r ! q ! j = 0)"
proof -
  let ?c = "av_fifo_size f div (num_bufs * 4)"
  let ?di = "\<lparr>di_bufs = silence bufs cnt num_bufs, di_num_bufs = num_bufs, di_cur_buf = 0, di_pos = 0\<rparr>"
  note sc = short_count[OF assms(2)]
  have cur: "di_cur_buf ?di < di_num_bufs ?di" using sc(4) by simp
  from read_deinterleave_general[OF assms(1) sc(2) cur]
  obtain di' where d: "av_fifo_generic_read f ?di (?c * num_bufs * 4) deinterleave
                        = Some (av_fifo_drain f (?c * num_bufs * 4), di')"
    and fr: "\<And>q j. (\<forall>k. di_lin ?di \<le> k \<and> k < di_lin ?di + ?c * num_bufs * 4 div 4 \<longrightarrow>
                          q \<noteq> k mod di_num_bufs ?di \<or> j \<noteq> k div di_num_bufs ?di)
                    \<Longrightarrow> di_bufs di' ! q ! j = di_bufs ?di ! q ! j"
    by blast
  have rb: "read_buffer f bufs cnt num_bufs = Some (?c, di_bufs di', av_fifo_drain f (?c * num_bufs * 4))"
    using assms(2) d sc(1) by (simp add: read_buffer_def Let_def)
  have z: "di_bufs di' ! q ! j = 0" if q: "q < num_bufs" and j: "?c \<le> j" "j < cnt" for q j
  proof -
    have "di_bufs di' ! q ! j = di_bufs ?di ! q ! j"
    proof (rule fr, intro allI impI)
      fix k assume "di_lin ?di \<le> k \<and> k < di_lin ?di + ?c * num_bufs * 4 div 4"
      then have "k < ?c * num_bufs" by (simp add: di_lin_def)
      then have "k div num_bufs < ?c" using sc(4) by (simp add: less_mult_imp_div_less)
      then show "q \<noteq> k mod di_num_bufs ?di \<or> j \<noteq> k div di_num_bufs ?di" using j by simp
    qed
    also have "\<dots> = memset_zero (bufs ! q) cnt ! j"
      using q assms(3) by (simp add: silence_nth planes_ok_iff)
    also have "\<dots> = 0" using q j assms(3) by (simp add: memset_zero_nth planes_ok_iff)
    finally show ?thesis .
  qed
  show ?thesis using rb z by simp
qed

lemma deinterleave_nth:
  assumes "0 < num_bufs" "planes_ok bufs cnt num_bufs" "k < len div 4" "len div 4 \<le> cnt * num_bufs" "len \<le> length src"
  shows "di_bufs (deinterleave \<lparr>di_bufs = bufs, di_num_bufs = num_bufs, di_cur_buf = 0, di_pos = 0\<rparr> src len)
           ! (k mod num_bufs) ! (k div num_bufs) = floats_of src ! k"
proof -
  let ?di = "\<lparr>di_bufs = bufs, di_num_bufs = num_bufs, di_cur_buf = 0, di_pos = 0\<rparr>"
  let ?xs = "take (len div 4) (floats_of src)"
  have len: "length ?xs = len div 4" using assms(5) by (simp add: length_floats_of div_le_mono)
  have kd: "k div num_bufs < cnt" using assms(1,3,4) by (simp add: less_mult_imp_div_less)
  have km: "k mod num_bufs < num_bufs" using assms(1) by simp
  have "di_bufs (foldl deinterleave_step ?di ?xs) ! (k mod num_bufs) ! (k div num_bufs)
        = ?xs ! (k div num_bufs * di_num_bufs ?di + k mod num_bufs - di_lin ?di)"
    by (rule foldl_step_write) (use assms km kd len in \<open>auto simp: di_lin_def planes_ok_iff\<close>)
  then show ?thesis using assms(3) by (simp add: deinterleave_def di_lin_def)
qed

subsection \<open>The callback and the driver operations\<close>

lemma outputaudio_silent:
  assumes "paused s \<or> underrun s \<or> buffer s = None"
  shows "\<exists>s'. outputaudio a s bufs nframes time_us = Some (silence bufs nframes (num_ports s), s')
           \<and> buffer s' = buffer s \<and> paused s' = paused s \<and> underrun s' = underrun s"
  using assms by (auto simp: outputaudio_def Let_def)

lemma outputaudio_read:
  assumes "\<not> paused s" "\<not> underrun s" "buffer s = Some f"
    and "read_buffer f bufs nframes (num_ports s) = Some (n, r, f')"
  shows "\<exists>s'. outputaudio a s bufs nframes time_us = Some (r, s')
           \<and> buffer s' = Some f' \<and> paused s' = paused s \<and> underrun s' = (n < nframes)"
  using assms by (auto simp: outputaudio_def Let_def)

lemma play_final:
  assumes "buffer s = Some f"
  shows "play a s data len True =
           Some (fst (write_buffer f data len), s\<lparr>underrun := False, buffer := Some (snd (write_buffer f data len))\<rparr>)"
  using assms by (simp add: play_def split: prod.splits)

lemma reset_eq:
  "reset s = (case buffer s of
                None \<Rightarrow> None
              | Some f \<Rightarrow> Some (s\<lparr>paused := False, buffer := Some (av_fifo_reset f)\<rparr>))"
  by (simp add: reset_def reset_trace_def Let_def split: option.splits)

lemma reset_underrun: "reset s = Some s' \<Longrightarrow> underrun s' = underrun s"
  by (auto simp: reset_eq split: option.splits)

lemma outputaudio_underrun_kept:
  assumes "underrun s" "outputaudio a s bufs nframes time_us = Some (r, s')"
  shows "underrun s'"
  using assms outputaudio_silent[of s a bufs nframes time_us] by auto

lemma step_underrun_kept:
  assumes "underrun s" "\<not> is_play x" "step a s x = Some s'"
  shows "underrun s'"
proof (cases x)
  case (Outputaudio bufs nframes time_us)
  then show ?thesis using assms outputaudio_underrun_kept[of s a bufs nframes time_us] by auto
next
  case (Play data len final_chunk)
  then show ?thesis using assms by simp
next
  case Reset
  then show ?thesis using assms reset_underrun[of s s'] by simp
next
  case Uninit
  then show ?thesis using assms reset_underrun[of s]
    by (auto simp: uninit_def split: option.splits)
qed (use assms in \<open>auto simp: audio_pause_def audio_resume_def\<close>)

lemma run_underrun_kept:
  assumes "underrun s" "\<forall>x\<in>set ops. \<not> is_play x" "run a s ops = Some s'"
  shows "underrun s'"
  using assms
proof (induction ops arbitrary: s)
  case Nil then show ?case by simp
next
  case (Cons x xs)
  from Cons.prems(3) obtain s1 where s1: "step a s x = Some s1" "run a s1 xs = Some s'"
    by (auto split: option.splits)
  have "underrun s1" using step_underrun_kept[OF Cons.prems(1) _ s1(1)] Cons.prems(2) by simp
  then show ?case using Cons.IH[OF _ _ s1(2)] Cons.prems(2) by simp
qed

lemma play_clears: "play a s data len final_chunk = Some (n, s') \<Longrightarrow> \<not> underrun s'"
  by (auto simp: play_def Let_def split: if_splits option.splits prod.splits)

lemma outputaudio_returns:
  assumes "jack_wf s"
  shows "\<exists>r s1. outputaudio a s bufs nframes time_us =
           Some (r, if estimate s1 then
              (let now = fl32 (fl64 (fl64 (real_of_int time_us) / 1000000));
                   diff = fl32 (fl32 (callback_time s1 + callback_interval s1) - now);
                   s2 = (if diff > - fl64 0.002 \<and> diff < fl64 0.002
                         then s1\<lparr>callback_time := fl32 (callback_time s1 + callback_interval s1)\<rparr>
                         else s1\<lparr>callback_time := now\<rparr>)
               in s2\<lparr>callback_interval := fl32 (fl32 (real nframes) / fl32 (real (samplerate a)))\<rparr>)
            else s1)
         \<and> estimate s1 = estimate s \<and> callback_time s1 = callback_time s
         \<and> callback_interval s1 = callback_interval s"
proof (cases "paused s \<or> underrun s \<or> buffer s = None")
  case True
  then show ?thesis by (auto simp: outputaudio_def)
next
  case False
  then obtain f where f: "buffer s = Some f" by auto
  then have "fifo_wf f" using assms by (simp add: jack_wf_def)
  from read_buffer_pop[OF this, of bufs nframes "num_ports s"]
  obtain n r f' where rb: "read_buffer f bufs nframes (num_ports s) = Some (n, r, f')" by blast
  show ?thesis
  proof (cases "n < nframes")
    case True
    show ?thesis
      by (rule exI[of _ r], rule exI[of _ "s\<lparr>underrun := True, buffer := Some f'\<rparr>"])
         (use False f rb True in \<open>simp add: outputaudio_def\<close>)
  next
    case n: False
    show ?thesis
      by (rule exI[of _ r], rule exI[of _ "s\<lparr>buffer := Some f'\<rparr>"])
         (use False f rb n in \<open>simp add: outputaudio_def\<close>)
  qed
qed

lemma outputaudio_cadence:
  assumes "estimate s" "jack_wf s"
  shows "\<exists>r s'. outputaudio a s bufs nframes time_us = Some (r, s')
           \<and> callback_time s' =
               (if \<bar>fl32 (fl32 (callback_time s + callback_interval s)
                         - fl32 (fl64 (fl64 (real_of_int time_us) / 1000000)))\<bar> < fl64 0.002
                then fl32 (callback_time s + callback_interval s)
                else fl32 (fl64 (fl64 (real_of_int time_us) / 1000000)))
           \<and> callback_interval s' = fl32 (fl32 (real nframes) / fl32 (real (samplerate a)))"
proof -
  from outputaudio_returns[OF assms(2), of a bufs nframes time_us]
  obtain r s1 where o: "outputaudio a s bufs nframes time_us =
           Some (r, if estimate s1 then
              (let now = fl32 (fl64 (fl64 (real_of_int time_us) / 1000000));
                   diff = fl32 (fl32 (callback_time s1 + callback_interval s1) - now);
                   s2 = (if diff > - fl64 0.002 \<and> diff < fl64 0.002
                         then s1\<lparr>callback_time := fl32 (callback_time s1 + callback_interval s1)\<rparr>
                         else s1\<lparr>callback_time := now\<rparr>)
               in s2\<lparr>callback_interval := fl32 (fl32 (real nframes) / fl32 (real (samplerate a)))\<rparr>)
            else s1)"
    and e: "estimate s1 = estimate s" "callback_time s1 = callback_time s"
      "callback_interval s1 = callback_interval s" by blast
  define now where "now = fl32 (fl64 (fl64 (real_of_int time_us) / 1000000))"
  define d where "d = fl32 (fl32 (callback_time s + callback_interval s) - now)"
  have k: "(- fl64 0.002 < d \<and> d < fl64 0.002) \<longleftrightarrow> \<bar>d\<bar> < fl64 0.002" by linarith
  have o': "outputaudio a s bufs nframes time_us =
      Some (r, (if \<bar>d\<bar> < fl64 0.002
                then s1\<lparr>callback_time := fl32 (callback_time s + callback_interval s)\<rparr>
                else s1\<lparr>callback_time := now\<rparr>)
               \<lparr>callback_interval := fl32 (fl32 (real nframes) / fl32 (real (samplerate a)))\<rparr>)"
    unfolding o Let_def e now_def[symmetric] d_def[symmetric] using assms(1) by (simp only: k if_True)
  show ?thesis
  proof (cases "\<bar>d\<bar> < fl64 0.002")
    case True
    then show ?thesis unfolding o' d_def[symmetric] now_def[symmetric] by simp
  next
    case False
    then show ?thesis unfolding o' d_def[symmetric] now_def[symmetric] by simp
  qed
qed

text \<open>Roundings at the inputs of the examples.\<close>

lemmas fl_defs = fl32_def fl64_def round_to_def exponent_def pow2_def round_even_def Let_def

lemma fl64_tolerance: "fl64 0.002 = 1152921504606847 / 576460752303423488"
  by (simp add: fl_defs bits.simps)

lemma fl_now_1s: "fl32 (fl64 (fl64 (real_of_int 1000000) / 1000000)) = 1"
  by (simp add: fl_defs bits.simps)

lemma fl_now_quarter: "fl32 (fl64 (fl64 (real_of_int 250000) / 1000000)) = 1 / 4"
  by (simp add: fl_defs bits.simps)

lemma fl64_clock_20000: "fl64 (fl64 (real_of_int 20000018000) / 1000000) = 5497563086682325 / 2 ^ 38"
  by (simp add: fl_defs bits.simps)

lemma fl_now_20000: "fl32 (fl64 (fl64 (real_of_int 20000018000) / 1000000)) = 10240009 / 512"
  unfolding fl64_clock_20000 by (simp add: fl_defs bits.simps)

lemma fl32_exact_values:
  "fl32 (1 + 1 / 2) = 3 / 2" "fl32 (3 / 2 - 1) = 1 / 2"
  "fl32 (0 + 1 / 4) = 1 / 4" "fl32 (1 / 4 - 1 / 4) = 0" "fl32 (1 / 4 - 1) = - 3 / 4"
  "fl32 (20000 + 1 / 64) = 1280001 / 64" "fl32 (1280001 / 64 - 10240009 / 512) = - 1 / 512"
  by (simp_all add: fl_defs bits.simps)

lemma fl32_period: "fl32 (fl32 (real 3) / fl32 (real 48000)) = 8589935 / 137438953472"
  by (simp add: fl_defs bits.simps)

lemma write_buffer_fits:
  assumes "len \<le> av_fifo_space f"
  shows "write_buffer f data len = (len, f\<lparr>contents := contents f @ take len data\<rparr>)"
  using assms by (simp add: write_buffer_def av_fifo_generic_write_def Let_def)

lemma interleave_deinterleave:
  assumes "planes_ok bufs cnt num_bufs" "cnt * num_bufs * 4 \<le> length src"
  shows "interleave (di_bufs (deinterleave \<lparr>di_bufs = bufs, di_num_bufs = num_bufs, di_cur_buf = 0, di_pos = 0\<rparr>
                       src (cnt * num_bufs * 4))) cnt num_bufs
         = floats_of (take (cnt * num_bufs * 4) src)"
proof (rule nth_equalityI)
  let ?n = "cnt * num_bufs * 4"
  let ?r = "di_bufs (deinterleave \<lparr>di_bufs = bufs, di_num_bufs = num_bufs, di_cur_buf = 0, di_pos = 0\<rparr> src ?n)"
  have l: "length (floats_of (take ?n src)) = cnt * num_bufs"
    using assms(2) by (simp add: length_floats_of)
  show "length (interleave ?r cnt num_bufs) = length (floats_of (take ?n src))"
    using l by (simp add: interleave_def)
  fix k assume "k < length (interleave ?r cnt num_bufs)"
  then have k: "k < cnt * num_bufs" by (simp add: interleave_def)
  then have n0: "0 < num_bufs" by (cases num_bufs) simp_all
  have "?r ! (k mod num_bufs) ! (k div num_bufs) = floats_of src ! k"
    by (rule deinterleave_nth[OF n0 assms(1)]) (use k assms(2) in simp_all)
  moreover have "floats_of (take ?n src) ! k = floats_of src ! k"
  proof -
    have "floats_of (take ?n src) = take (cnt * num_bufs) (floats_of src)"
      using floats_of_take[of "cnt * num_bufs" src] by (simp add: mult.commute mult.left_commute)
    then show ?thesis using k by simp
  qed
  ultimately show "interleave ?r cnt num_bufs ! k = floats_of (take ?n src) ! k"
    using k by (simp add: interleave_def)
qed

lemma read_buffer_full:
  assumes "fifo_wf f" "fifo_aligned f" "planes_ok bufs cnt num_bufs"
    and "cnt * num_bufs * 4 \<le> av_fifo_size f"
  shows "\<exists>r. read_buffer f bufs cnt num_bufs = Some (cnt, r, av_fifo_drain f (cnt * num_bufs * 4))
           \<and> bytes_of (interleave r cnt num_bufs) = take (cnt * num_bufs * 4) (contents f)"
proof -
  let ?n = "cnt * num_bufs * 4"
  let ?di = "\<lparr>di_bufs = bufs, di_num_bufs = num_bufs, di_cur_buf = 0, di_pos = 0\<rparr>"
  let ?r = "di_bufs (deinterleave ?di (contents f) ?n)"
  have ns: "\<not> av_fifo_size f < cnt * 4 * num_bufs"
    using assms(4) by (simp add: mult.commute mult.left_commute)
  have rb: "read_buffer f bufs cnt num_bufs = Some (cnt, ?r, av_fifo_drain f ?n)"
    using ns read_deinterleave_aligned[OF assms(1,2,4), of ?di]
    by (simp add: read_buffer_def Let_def)
  have le: "?n \<le> length (contents f)" using assms(4) by (simp add: av_fifo_size_def)
  have "interleave ?r cnt num_bufs = floats_of (take ?n (contents f))"
    by (rule interleave_deinterleave[OF assms(3) le])
  then have "bytes_of (interleave ?r cnt num_bufs) = take (length (take ?n (contents f)) div 4 * 4) (take ?n (contents f))"
    by (simp only: bytes_of_floats_of)
  also have "\<dots> = take ?n (contents f)" using le by simp
  finally show ?thesis using rb by blast
qed

subsection \<open>The invariant is established by init and kept by every operation\<close>

lemma init_buffer_ok: "fifo_wf (init_buffer channels) \<and> fifo_aligned (init_buffer channels)"
  by (auto simp: init_buffer_def init_outburst_def av_fifo_alloc_def fifo_wf_def fifo_aligned_def
      av_fifo_size_def Let_def)

lemma write_buffer_ok:
  assumes "fifo_wf f" "fifo_aligned f"
  shows "fifo_wf (snd (write_buffer f data len)) \<and> fifo_aligned (snd (write_buffer f data len))"
proof -
  let ?m = "if av_fifo_space f < len then av_fifo_space f else len"
  have w: "snd (write_buffer f data len) = f\<lparr>contents := contents f @ take ?m data\<rparr>"
    by (simp add: write_buffer_def av_fifo_generic_write_def Let_def)
  have "length (take ?m data) \<le> av_fifo_space f" by (simp add: min_def)
  then have "length (contents f) + length (take ?m data) \<le> capacity f"
    using assms(1) unfolding fifo_wf_def av_fifo_space_def av_fifo_size_def by linarith
  then show ?thesis using assms unfolding w
    by (simp add: fifo_wf_def fifo_aligned_def av_fifo_size_def)
qed

lemma read_buffer_ok:
  assumes "fifo_wf f" "fifo_aligned f" "read_buffer f bufs cnt num_bufs = Some (n, r, f')"
  shows "fifo_wf f' \<and> fifo_aligned f'"
proof -
  let ?c = "if av_fifo_size f < cnt * 4 * num_bufs then av_fifo_size f div 4 div num_bufs else cnt"
  from read_buffer_pop[OF assms(1), of bufs cnt num_bufs] assms(3)
  have f': "f' = av_fifo_drain f (?c * num_bufs * 4)" by auto
  have le: "?c * num_bufs * 4 \<le> av_fifo_size f"
  proof (cases "av_fifo_size f < cnt * 4 * num_bufs")
    case True
    then show ?thesis using short_count(1,2)[OF True] by simp
  next
    case False
    then show ?thesis by (simp add: mult.commute mult.left_commute)
  qed
  show ?thesis unfolding f'
    using drain_wf[OF assms(1) le] drain_aligned[OF assms(2), of "?c * num_bufs * 4"] by simp
qed

lemma step_ok:
  assumes "jack_ok s" "step a s x = Some s'"
  shows "jack_ok s'"
proof (cases x)
  case (Outputaudio bufs nframes time_us)
  show ?thesis
  proof (cases "paused s \<or> underrun s \<or> buffer s = None")
    case True
    from outputaudio_silent[OF True, of a bufs nframes time_us] assms Outputaudio
    show ?thesis by (auto simp: jack_ok_def)
  next
    case False
    then obtain f where f: "buffer s = Some f" by auto
    then have ok: "fifo_wf f" "fifo_aligned f" using assms(1) by (simp_all add: jack_ok_def)
    from read_buffer_pop[OF ok(1), of bufs nframes "num_ports s"]
    obtain n r f' where rb: "read_buffer f bufs nframes (num_ports s) = Some (n, r, f')" by blast
    from outputaudio_read[OF _ _ f rb, of a time_us] False assms(2) Outputaudio
    have "buffer s' = Some f'" by auto
    then show ?thesis using read_buffer_ok[OF ok rb] by (simp add: jack_ok_def)
  qed
next
  case (Play data len final_chunk)
  then obtain n where p: "play a s data len final_chunk = Some (n, s')" using assms(2) by auto
  define l where "l = (if \<not> final_chunk then len - len mod outburst a else len)"
  from p obtain f where f: "buffer s = Some f"
    by (cases "buffer s") (auto simp: play_def Let_def split: if_splits)
  from p f have "buffer s' = Some (snd (write_buffer f data l))"
    by (auto simp: play_def Let_def l_def split: if_splits prod.splits)
  then show ?thesis using f assms(1) write_buffer_ok[of f data l] by (simp add: jack_ok_def)
next
  case Reset
  then show ?thesis using assms
    by (auto simp: reset_eq jack_ok_def fifo_wf_def fifo_aligned_def av_fifo_reset_def
        av_fifo_size_def split: option.splits)
next
  case Uninit
  then show ?thesis using assms
    by (auto simp: uninit_def jack_ok_def split: option.splits)
qed (use assms in \<open>auto simp: audio_pause_def audio_resume_def jack_ok_def\<close>)

lemma run_ok:
  assumes "jack_ok s" "run a s ops = Some s'"
  shows "jack_ok s'"
  using assms
proof (induction ops arbitrary: s)
  case Nil then show ?case by simp
next
  case (Cons x xs)
  from Cons.prems(2) obtain s1 where s1: "step a s x = Some s1" "run a s1 xs = Some s'"
    by (auto split: option.splits)
  show ?case by (rule Cons.IH[OF step_ok[OF Cons.prems(1) s1(1)] s1(2)])
qed

section \<open>The claims\<close>

subsection \<open>C1: silence while paused, after an underrun, or without a buffer\<close>

text \<open>
  C1. When \<open>paused\<close> is set, or \<open>underrun\<close> is set, or there is no buffer, the callback
  returns with every one of the \<open>nframes\<close> positions of every one of the \<open>num_ports\<close>
  planes zero, and the buffer (its bytes, and so its occupancy) is the one before the
  call, as are the two flags. The port buffers are \<open>num_ports\<close> planes of at least \<open>nframes\<close> samples.
\<close>

theorem outputaudio_silence:
  assumes "paused s \<or> underrun s \<or> buffer s = None"
    and "planes_ok bufs nframes (num_ports s)"
  shows "\<exists>r s'. outputaudio a s bufs nframes time_us = Some (r, s')
           \<and> (\<forall>q<num_ports s. \<forall>j<nframes. r ! q ! j = 0)
           \<and> buffer s' = buffer s \<and> paused s' = paused s \<and> underrun s' = underrun s"
proof -
  from outputaudio_silent[OF assms(1), of a bufs nframes time_us]
  obtain s' where o: "outputaudio a s bufs nframes time_us = Some (silence bufs nframes (num_ports s), s')"
    and b: "buffer s' = buffer s" "paused s' = paused s" "underrun s' = underrun s" by blast
  have "silence bufs nframes (num_ports s) ! q ! j = 0" if "q < num_ports s" "j < nframes" for q j
    using that assms(2) by (simp add: silence_nth memset_zero_nth planes_ok_iff)
  then show ?thesis using o b by blast
qed

theorem outputaudio_silence_witness:
  "paused (demo_jack\<lparr>paused := True\<rparr>)
   \<and> planes_ok [[5, 5, 5], [6, 6, 6]] 3 (num_ports (demo_jack\<lparr>paused := True\<rparr>))
   \<and> (\<exists>r s'. outputaudio demo_ao (demo_jack\<lparr>paused := True\<rparr>) [[5, 5, 5], [6, 6, 6]] 3 1000000 = Some (r, s')
         \<and> r ! 1 ! 2 = 0 \<and> buffer s' = Some demo_fifo)"
proof -
  have h1: "paused (demo_jack\<lparr>paused := True\<rparr>) \<or> underrun (demo_jack\<lparr>paused := True\<rparr>)
            \<or> buffer (demo_jack\<lparr>paused := True\<rparr>) = None" by simp
  have h2: "planes_ok [[5, 5, 5], [6, 6, 6]] 3 (num_ports (demo_jack\<lparr>paused := True\<rparr>))"
    by (simp add: planes_ok_def demo_jack_def)
  have n: "(1::nat) < num_ports (demo_jack\<lparr>paused := True\<rparr>)" "(2::nat) < 3"
    by (simp_all add: demo_jack_def)
  have b: "buffer (demo_jack\<lparr>paused := True\<rparr>) = Some demo_fifo" by (simp add: demo_jack_def)
  from outputaudio_silence[OF h1 h2, of demo_ao 1000000] n b
  have "\<exists>r s'. outputaudio demo_ao (demo_jack\<lparr>paused := True\<rparr>) [[5, 5, 5], [6, 6, 6]] 3 1000000 = Some (r, s')
         \<and> r ! 1 ! 2 = 0 \<and> buffer s' = Some demo_fifo"
    by (metis (no_types, lifting))
  then show ?thesis using h2 by simp
qed

subsection \<open>C2: a short read\<close>

text \<open>
  C2. When the buffer holds fewer than \<open>cnt * num_bufs * sizeof(float)\<close> bytes,
  \<open>read_buffer\<close> returns \<open>occupied div (num_bufs * 4)\<close> frames, every position from that
  count up to \<open>cnt - 1\<close> is zero in every plane, and a callback that makes this read
  (not paused, no underrun flagged so far, \<open>num_ports = num_bufs\<close>) returns with
  \<open>underrun\<close> set.
\<close>

theorem read_buffer_underrun:
  assumes "fifo_wf f" "av_fifo_size f < cnt * num_bufs * 4" "planes_ok bufs cnt num_bufs"
  shows "\<exists>r f'. read_buffer f bufs cnt num_bufs = Some (av_fifo_size f div (num_bufs * 4), r, f')
           \<and> (\<forall>q<num_bufs. \<forall>j. av_fifo_size f div (num_bufs * 4) \<le> j \<and> j < cnt \<longrightarrow> r ! q ! j = 0)
           \<and> (\<forall>a s time_us. \<not> paused s \<and> \<not> underrun s \<and> buffer s = Some f \<and> num_ports s = num_bufs \<longrightarrow>
                 (\<exists>s'. outputaudio a s bufs cnt time_us = Some (r, s') \<and> underrun s'))"
proof -
  have sh: "av_fifo_size f < cnt * 4 * num_bufs" using assms(2) by (simp add: mult.commute mult.left_commute)
  from read_buffer_short[OF assms(1) sh assms(3)]
  obtain r where rb: "read_buffer f bufs cnt num_bufs =
           Some (av_fifo_size f div (num_bufs * 4), r,
                 av_fifo_drain f (av_fifo_size f div (num_bufs * 4) * num_bufs * 4))"
    and z: "\<forall>q<num_bufs. \<forall>j. av_fifo_size f div (num_bufs * 4) \<le> j \<and> j < cnt \<longrightarrow> r ! q ! j = 0"
    by blast
  have lt: "av_fifo_size f div (num_bufs * 4) < cnt" by (rule short_count(3)[OF sh])
  have cb: "\<exists>s'. outputaudio a s bufs cnt time_us = Some (r, s') \<and> underrun s'"
    if "\<not> paused s" "\<not> underrun s" "buffer s = Some f" "num_ports s = num_bufs" for a s time_us
    using outputaudio_read[OF that(1,2,3), of bufs cnt "av_fifo_size f div (num_bufs * 4)" r _ a time_us]
      rb that(4) lt by auto
  show ?thesis using rb z cb by blast
qed

theorem read_buffer_underrun_witness:
  "fifo_wf demo_fifo \<and> av_fifo_size demo_fifo < 3 * 2 * 4 \<and> planes_ok [[5, 5, 5], [6, 6, 6]] 3 2
   \<and> (\<exists>r f'. read_buffer demo_fifo [[5, 5, 5], [6, 6, 6]] 3 2 = Some (2, r, f')
         \<and> r ! 0 ! 2 = 0 \<and> r ! 1 ! 2 = 0
         \<and> (\<exists>s'. outputaudio demo_ao demo_jack [[5, 5, 5], [6, 6, 6]] 3 1000000 = Some (r, s')
                \<and> underrun s'))"
proof -
  have h1: "fifo_wf demo_fifo" by (simp add: fifo_wf_def demo_fifo_def av_fifo_size_def)
  have h2: "av_fifo_size demo_fifo < 3 * 2 * 4" by (simp add: demo_fifo_def av_fifo_size_def)
  have h3: "planes_ok [[5, 5, 5], [6, 6, 6]] 3 2"
    by (simp add: planes_ok_def)
  have c: "av_fifo_size demo_fifo div (2 * 4) = 2" by (simp add: demo_fifo_def av_fifo_size_def)
  have s: "\<not> paused demo_jack \<and> \<not> underrun demo_jack \<and> buffer demo_jack = Some demo_fifo
           \<and> num_ports demo_jack = 2" by (simp add: demo_jack_def)
  from read_buffer_underrun[OF h1 h2 h3]
  obtain r f' where rb: "read_buffer demo_fifo [[5, 5, 5], [6, 6, 6]] 3 2 = Some (2, r, f')"
    and z: "\<forall>q<2. \<forall>j. 2 \<le> j \<and> j < 3 \<longrightarrow> r ! q ! j = 0"
    and cb: "\<forall>a s time_us. \<not> paused s \<and> \<not> underrun s \<and> buffer s = Some demo_fifo \<and> num_ports s = 2 \<longrightarrow>
                 (\<exists>s'. outputaudio a s [[5, 5, 5], [6, 6, 6]] 3 time_us = Some (r, s') \<and> underrun s')"
    unfolding c by blast
  have "r ! 0 ! 2 = 0" "r ! 1 ! 2 = 0" using z by simp_all
  moreover have "\<exists>s'. outputaudio demo_ao demo_jack [[5, 5, 5], [6, 6, 6]] 3 1000000 = Some (r, s') \<and> underrun s'"
    using cb s by blast
  ultimately show ?thesis using h1 h2 h3 rb by blast
qed

subsection \<open>C3: the underrun flag stays until the next play\<close>

text \<open>
  C3 as the claim states it has \<open>reset\<close> clear the flag. \<open>reset\<close> does not assign
  \<open>underrun\<close>: after the reset of a state whose flag is set, the flag is set.
\<close>

theorem reset_keeps_underrun_counterexample:
  "underrun (demo_jack\<lparr>underrun := True\<rparr>)
   \<and> map_option underrun (reset (demo_jack\<lparr>underrun := True\<rparr>)) = Some True"
  by (simp add: reset_eq demo_jack_def)

text \<open>
  C3, amended. A callback that obtains fewer frames than it asked for returns with
  \<open>underrun\<close> set. From a state with \<open>underrun\<close> set, every run of operations without a
  \<open>play\<close> (callbacks, \<open>reset\<close>, pause, resume, \<open>get_space\<close>, \<open>get_delay\<close>, \<open>uninit\<close>) ends
  with \<open>underrun\<close> set. \<open>play\<close> clears the flag whenever it returns, whatever the number
  of bytes it accepts, zero included. \<open>reset\<close> leaves the flag as it was.
\<close>

theorem underrun_until_play:
  "(\<forall>f bufs nframes time_us n r f'.
       \<not> paused s \<and> \<not> underrun s \<and> buffer s = Some f
       \<and> read_buffer f bufs nframes (num_ports s) = Some (n, r, f') \<and> n < nframes \<longrightarrow>
       (\<exists>s'. outputaudio a s bufs nframes time_us = Some (r, s') \<and> underrun s'))
   \<and> (\<forall>ops s'. underrun s \<and> (\<forall>x\<in>set ops. \<not> is_play x) \<and> run a s ops = Some s' \<longrightarrow> underrun s')
   \<and> (\<forall>data len final_chunk n s'. play a s data len final_chunk = Some (n, s') \<longrightarrow> \<not> underrun s')
   \<and> (\<forall>s'. reset s = Some s' \<longrightarrow> underrun s' = underrun s)"
proof (intro conjI allI impI)
  fix f bufs nframes time_us n r f'
  assume h: "\<not> paused s \<and> \<not> underrun s \<and> buffer s = Some f
       \<and> read_buffer f bufs nframes (num_ports s) = Some (n, r, f') \<and> n < nframes"
  then show "\<exists>s'. outputaudio a s bufs nframes time_us = Some (r, s') \<and> underrun s'"
    using outputaudio_read[of s f bufs nframes n r f' a time_us] by auto
next
  fix ops s'
  assume "underrun s \<and> (\<forall>x\<in>set ops. \<not> is_play x) \<and> run a s ops = Some s'"
  then show "underrun s'" using run_underrun_kept[of s ops a s'] by blast
next
  fix data len final_chunk n s'
  assume "play a s data len final_chunk = Some (n, s')"
  then show "\<not> underrun s'" by (rule play_clears)
next
  fix s'
  assume "reset s = Some s'"
  then show "underrun s' = underrun s" by (rule reset_underrun)
qed

theorem underrun_until_play_witness:
  "(\<exists>r s1. outputaudio demo_ao demo_jack [[5, 5, 5], [6, 6, 6]] 3 1000000 = Some (r, s1) \<and> underrun s1)
   \<and> (\<exists>s'. run demo_ao (demo_jack\<lparr>underrun := True\<rparr>)
              [Outputaudio [[5, 5, 5], [6, 6, 6]] 3 1000000, Reset, Audio_pause, Audio_resume,
               Get_space, Get_delay 1000000] = Some s' \<and> underrun s')
   \<and> (\<exists>s'. play demo_ao (demo_jack\<lparr>underrun := True\<rparr>) [] 0 False = Some (0, s') \<and> \<not> underrun s')
   \<and> (\<exists>s'. reset (demo_jack\<lparr>underrun := True\<rparr>) = Some s' \<and> underrun s')"
proof -
  let ?B = "[[5, 5, 5], [6, 6, 6 :: sample]]"
  let ?u = "demo_jack\<lparr>underrun := True\<rparr>"
  let ?ops = "[Outputaudio ?B 3 1000000, Reset, Audio_pause, Audio_resume, Get_space, Get_delay 1000000]"
  have wf: "fifo_wf demo_fifo" by (simp add: fifo_wf_def demo_fifo_def av_fifo_size_def)
  have sh: "av_fifo_size demo_fifo < 3 * 4 * 2" by (simp add: demo_fifo_def av_fifo_size_def)
  have pl: "planes_ok ?B 3 2" by (simp add: planes_ok_def)
  have c: "av_fifo_size demo_fifo div (2 * 4) = 2" by (simp add: demo_fifo_def av_fifo_size_def)
  from read_buffer_short[OF wf sh pl] obtain r f'
    where rb: "read_buffer demo_fifo ?B 3 2 = Some (2, r, f')" unfolding c by blast
  have p1: "\<not> paused demo_jack \<and> \<not> underrun demo_jack \<and> buffer demo_jack = Some demo_fifo
       \<and> read_buffer demo_fifo ?B 3 (num_ports demo_jack) = Some (2, r, f') \<and> (2::nat) < 3"
    using rb by (simp add: demo_jack_def)
  have a1: "\<exists>r s1. outputaudio demo_ao demo_jack ?B 3 1000000 = Some (r, s1) \<and> underrun s1"
    using underrun_until_play[of demo_jack demo_ao, THEN conjunct1] p1 by blast
  have "run demo_ao ?u ?ops \<noteq> None"
    by (simp add: outputaudio_def Let_def reset_eq audio_pause_def audio_resume_def get_space_def
        get_delay_def demo_jack_def)
  then obtain s' where r2: "run demo_ao ?u ?ops = Some s'" by blast
  have np: "\<forall>x\<in>set ?ops. \<not> is_play x" by simp
  have u: "underrun ?u" by simp
  have a2: "\<exists>s'. run demo_ao ?u ?ops = Some s' \<and> underrun s'"
    using underrun_until_play[of ?u demo_ao, THEN conjunct2, THEN conjunct1] u r2 np by blast
  have "\<exists>s'. play demo_ao ?u [] 0 False = Some (0, s')"
    by (simp add: play_def Let_def write_buffer_def av_fifo_generic_write_def demo_jack_def demo_ao_def)
  then have a3: "\<exists>s'. play demo_ao ?u [] 0 False = Some (0, s') \<and> \<not> underrun s'"
    using underrun_until_play[of ?u demo_ao, THEN conjunct2, THEN conjunct2, THEN conjunct1] by blast
  have "\<exists>s'. reset ?u = Some s'" by (simp add: reset_eq demo_jack_def)
  then have a4: "\<exists>s'. reset ?u = Some s' \<and> underrun s'"
    using underrun_until_play[of ?u demo_ao, THEN conjunct2, THEN conjunct2, THEN conjunct2] u by blast
  show ?thesis using a1 a2 a3 a4 by blast
qed

subsection \<open>C4: write\_buffer accepts what fits\<close>

text \<open>
  C4. A push of \<open>len\<close> bytes appends exactly \<open>min len (av_fifo_space f)\<close> bytes, the first
  ones of \<open>data\<close>, to the back of the queue and returns that count; \<open>write_buffer\<close> is a
  total function (it returns at once), and the occupancy stays within the capacity. In
  particular a push of 10000 bytes when 8192 bytes are free returns 8192 and fills the
  buffer; into an empty buffer (the scenario of the spec, capacity 8192) it leaves 8192
  bytes occupied.
  \<open>data\<close> holds at least \<open>len\<close> bytes, as the C caller guarantees.
\<close>

theorem write_buffer_accepts:
  assumes "av_fifo_size f \<le> capacity f" "len \<le> length data"
  shows "write_buffer f data len =
           (min len (av_fifo_space f),
            f\<lparr>contents := contents f @ take (min len (av_fifo_space f)) data\<rparr>)
         \<and> av_fifo_size (snd (write_buffer f data len)) = av_fifo_size f + min len (av_fifo_space f)
         \<and> av_fifo_size (snd (write_buffer f data len)) \<le> capacity f
         \<and> (len = 10000 \<and> av_fifo_space f = 8192 \<longrightarrow>
              fst (write_buffer f data len) = 8192
              \<and> av_fifo_size (snd (write_buffer f data len)) = capacity f
              \<and> (av_fifo_size f = 0 \<longrightarrow> av_fifo_size (snd (write_buffer f data len)) = 8192))"
proof -
  let ?m = "min len (av_fifo_space f)"
  have w: "write_buffer f data len = (?m, f\<lparr>contents := contents f @ take ?m data\<rparr>)"
    by (simp add: write_buffer_def av_fifo_generic_write_def Let_def min_def)
  have l: "length (take ?m data) = ?m" using assms(2) by simp
  have sz: "av_fifo_size (snd (write_buffer f data len)) = av_fifo_size f + ?m"
    unfolding w using l by (simp add: av_fifo_size_def)
  have cap: "av_fifo_size f + ?m \<le> capacity f"
  proof -
    have "?m \<le> capacity f - av_fifo_size f" by (simp add: av_fifo_space_def)
    then show ?thesis using assms(1) by linarith
  qed
  have part: "fst (write_buffer f data len) = 8192
      \<and> av_fifo_size (snd (write_buffer f data len)) = capacity f
      \<and> (av_fifo_size f = 0 \<longrightarrow> av_fifo_size (snd (write_buffer f data len)) = 8192)"
    if "len = 10000" "av_fifo_space f = 8192"
  proof -
    have m: "?m = 8192" using that by simp
    have c: "capacity f = av_fifo_size f + 8192"
      using that(2) assms(1) unfolding av_fifo_space_def by linarith
    show ?thesis unfolding sz m using c by (simp add: w m)
  qed
  have cap': "av_fifo_size (snd (write_buffer f data len)) \<le> capacity f"
    using sz cap by simp
  show ?thesis using w sz cap' part by blast
qed

theorem write_buffer_accepts_witness:
  "av_fifo_size (av_fifo_alloc 8192) \<le> capacity (av_fifo_alloc 8192)
   \<and> (10000::nat) \<le> length (replicate 10000 (0::byte))
   \<and> fst (write_buffer (av_fifo_alloc 8192) (replicate 10000 0) 10000) = 8192
   \<and> av_fifo_size (snd (write_buffer (av_fifo_alloc 8192) (replicate 10000 0) 10000)) = 8192"
proof -
  have h1: "av_fifo_size (av_fifo_alloc 8192) \<le> capacity (av_fifo_alloc 8192)"
    by (simp add: av_fifo_size_def av_fifo_alloc_def)
  have h2: "(10000::nat) \<le> length (replicate 10000 (0::byte))" by simp
  have h3: "av_fifo_space (av_fifo_alloc 8192) = 8192" "av_fifo_size (av_fifo_alloc 8192) = 0"
    by (simp_all add: av_fifo_space_def av_fifo_size_def av_fifo_alloc_def)
  note t = write_buffer_accepts[OF h1 h2, THEN conjunct2, THEN conjunct2, THEN conjunct2]
  have "fst (write_buffer (av_fifo_alloc 8192) (replicate 10000 0) 10000) = 8192
     \<and> av_fifo_size (snd (write_buffer (av_fifo_alloc 8192) (replicate 10000 0) 10000)) = 8192"
    using t h3 by blast
  then show ?thesis using h1 h2 by blast
qed

subsection \<open>C5: reset empties the buffer and clears paused\<close>

text \<open>
  C5 as the claim states it has \<open>paused\<close> return to its value from before the call. The
  last assignment of \<open>reset\<close> is \<open>paused = 0\<close>: the reset of a paused state with a
  non-empty buffer ends with \<open>paused\<close> clear.
\<close>

theorem reset_paused_counterexample:
  "paused (demo_jack\<lparr>paused := True\<rparr>)
   \<and> buffer (demo_jack\<lparr>paused := True\<rparr>) = Some demo_fifo
   \<and> 0 < av_fifo_size demo_fifo
   \<and> map_option paused (reset (demo_jack\<lparr>paused := True\<rparr>)) = Some False"
  by (simp add: reset_eq demo_jack_def demo_fifo_def av_fifo_size_def)

text \<open>
  C5, amended. On a state with a buffer, \<open>reset\<close> goes through three states and returns
  the last. In the first \<open>paused\<close> is set and the buffer is still the one before the call.
  In the second the buffer is empty and \<open>paused\<close> is still set: \<open>paused\<close> holds while the
  buffer is cleared. In the third \<open>paused\<close> is clear and the buffer is the empty one. So
  after \<open>reset\<close> the occupancy is 0 and \<open>paused\<close> is clear, whatever it was before the
  call (it has its earlier value only when that was clear). A callback that runs in the
  first or the second state fills the ports with silence and leaves the buffer and
  \<open>paused\<close> as it finds them.
\<close>

theorem reset_empties_and_unpauses:
  assumes "buffer s = Some f"
  shows "\<exists>s1 s2 s3. reset_trace s = Some [s1, s2, s3] \<and> reset s = Some s3
           \<and> s1 = s\<lparr>paused := True\<rparr> \<and> paused s1 \<and> buffer s1 = Some f
           \<and> s2 = s1\<lparr>buffer := Some (av_fifo_reset f)\<rparr> \<and> paused s2
           \<and> buffer s2 = Some (av_fifo_reset f) \<and> av_fifo_size (av_fifo_reset f) = 0
           \<and> s3 = s2\<lparr>paused := False\<rparr> \<and> \<not> paused s3 \<and> buffer s3 = Some (av_fifo_reset f)
           \<and> (paused s3 = paused s \<longleftrightarrow> \<not> paused s)
           \<and> (\<forall>a bufs nframes time_us.
                 (\<exists>s'. outputaudio a s1 bufs nframes time_us
                          = Some (silence bufs nframes (num_ports s), s')
                        \<and> buffer s' = buffer s1 \<and> paused s')
                 \<and> (\<exists>s'. outputaudio a s2 bufs nframes time_us
                            = Some (silence bufs nframes (num_ports s), s')
                          \<and> buffer s' = buffer s2 \<and> paused s'))"
proof -
  let ?s1 = "s\<lparr>paused := True\<rparr>"
  let ?s2 = "?s1\<lparr>buffer := Some (av_fifo_reset f)\<rparr>"
  let ?s3 = "?s2\<lparr>paused := False\<rparr>"
  have t: "reset_trace s = Some [?s1, ?s2, ?s3]"
    using assms by (simp add: reset_trace_def Let_def)
  have r: "reset s = Some ?s3" using t by (simp add: reset_def)
  have e: "av_fifo_size (av_fifo_reset f) = 0"
    by (simp add: av_fifo_reset_def av_fifo_size_def)
  have c1: "\<exists>s'. outputaudio a ?s1 bufs nframes time_us
                   = Some (silence bufs nframes (num_ports s), s')
                 \<and> buffer s' = buffer ?s1 \<and> paused s'"
    for a bufs nframes time_us
    using outputaudio_silent[of ?s1 a bufs nframes time_us] by auto
  have c2: "\<exists>s'. outputaudio a ?s2 bufs nframes time_us
                   = Some (silence bufs nframes (num_ports s), s')
                 \<and> buffer s' = buffer ?s2 \<and> paused s'"
    for a bufs nframes time_us
    using outputaudio_silent[of ?s2 a bufs nframes time_us] by auto
  show ?thesis
    by (rule exI[of _ ?s1], rule exI[of _ ?s2], rule exI[of _ ?s3])
       (use t r e c1 c2 assms in simp)
qed

theorem reset_empties_and_unpauses_witness:
  "buffer (demo_jack\<lparr>paused := True\<rparr>) = Some demo_fifo
   \<and> 0 < av_fifo_size demo_fifo
   \<and> (\<exists>s1 s2 s3. reset_trace (demo_jack\<lparr>paused := True\<rparr>) = Some [s1, s2, s3]
          \<and> reset (demo_jack\<lparr>paused := True\<rparr>) = Some s3
          \<and> paused s1 \<and> buffer s1 = Some demo_fifo
          \<and> paused s2 \<and> buffer s2 = Some (av_fifo_reset demo_fifo)
          \<and> av_fifo_size (av_fifo_reset demo_fifo) = 0
          \<and> \<not> paused s3 \<and> buffer s3 = Some (av_fifo_reset demo_fifo))"
proof -
  have h: "buffer (demo_jack\<lparr>paused := True\<rparr>) = Some demo_fifo" by (simp add: demo_jack_def)
  have n: "0 < av_fifo_size demo_fifo" by (simp add: demo_fifo_def av_fifo_size_def)
  from reset_empties_and_unpauses[OF h]
  have "\<exists>s1 s2 s3. reset_trace (demo_jack\<lparr>paused := True\<rparr>) = Some [s1, s2, s3]
          \<and> reset (demo_jack\<lparr>paused := True\<rparr>) = Some s3
          \<and> paused s1 \<and> buffer s1 = Some demo_fifo
          \<and> paused s2 \<and> buffer s2 = Some (av_fifo_reset demo_fifo)
          \<and> av_fifo_size (av_fifo_reset demo_fifo) = 0
          \<and> \<not> paused s3 \<and> buffer s3 = Some (av_fifo_reset demo_fifo)"
    by blast
  then show ?thesis using h n by blast
qed

subsection \<open>C6: the delay\<close>

text \<open>
  C6 as the claim states it adds the hardware latency to
  \<open>max(0, period - elapsed)\<close>. The code adds \<open>period - elapsed\<close> to the latency and
  clamps the sum at 0. With a latency of 0.5 s, a period of 0.25 s, the last in-phase
  callback at time 0, an empty buffer and the clock at 1 s, \<open>get_delay\<close> returns 0 and the
  claim's formula gives 0.5. (All these values are exact in binary floating point.)
\<close>

theorem get_delay_counterexample:
  "estimate (demo_jack\<lparr>buffer := Some (av_fifo_alloc 32)\<rparr>)
   \<and> get_delay demo_ao (demo_jack\<lparr>buffer := Some (av_fifo_alloc 32)\<rparr>) 1000000 = Some 0
   \<and> claimed_delay demo_ao (demo_jack\<lparr>buffer := Some (av_fifo_alloc 32)\<rparr>) (av_fifo_alloc 32) 1000000 = 1 / 2"
  by (simp add: get_delay_def claimed_delay_def Let_def demo_jack_def demo_ao_def
      av_fifo_alloc_def av_fifo_size_def)

text \<open>
  C6, amended. With a buffer and \<open>bps > 0\<close>, \<open>get_delay\<close> returns
  \<open>occupied / bps + max(0, latency + period - (now - callback_time))\<close> when estimation is
  enabled and a period has been measured (\<open>callback_interval > 0\<close>), and
  \<open>occupied / bps + latency\<close> otherwise, so exactly that when estimation is disabled. The
  result is the claim's formula as long as the callback is not late
  (\<open>now - callback_time \<le> period\<close>) and the latency is not negative.
\<close>

theorem get_delay_formula:
  assumes "buffer s = Some f" "0 < bps a"
  shows "get_delay a s time_us =
           Some (real (av_fifo_size f) / real (bps a)
                 + (if estimate s \<and> 0 < callback_interval s
                    then max 0 (jack_latency s
                                + (callback_interval s - (real_of_int time_us / 1000000 - callback_time s)))
                    else jack_latency s))
       \<and> (\<not> estimate s \<longrightarrow>
            get_delay a s time_us = Some (real (av_fifo_size f) / real (bps a) + jack_latency s))
       \<and> (estimate s \<and> 0 < callback_interval s \<and> 0 \<le> jack_latency s
            \<and> real_of_int time_us / 1000000 - callback_time s \<le> callback_interval s \<longrightarrow>
            get_delay a s time_us = Some (claimed_delay a s f time_us))"
  using assms by (auto simp: get_delay_def claimed_delay_def Let_def max_def)

theorem get_delay_formula_witness:
  "buffer demo_jack = Some demo_fifo \<and> 0 < bps demo_ao
   \<and> get_delay demo_ao demo_jack 1000000 = Some (18 / 384000)
   \<and> get_delay demo_ao (demo_jack\<lparr>estimate := False\<rparr>) 1000000 = Some (18 / 384000 + 1 / 2)
   \<and> get_delay demo_ao demo_jack 125000 = Some (claimed_delay demo_ao demo_jack demo_fifo 125000)"
proof -
  have h: "buffer demo_jack = Some demo_fifo" "0 < bps demo_ao"
    by (simp_all add: demo_jack_def demo_ao_def)
  have h': "buffer (demo_jack\<lparr>estimate := False\<rparr>) = Some demo_fifo"
    by (simp add: demo_jack_def)
  have e: "estimate demo_jack \<and> 0 < callback_interval demo_jack \<and> 0 \<le> jack_latency demo_jack
            \<and> real_of_int 125000 / 1000000 - callback_time demo_jack \<le> callback_interval demo_jack"
    by (simp add: demo_jack_def)
  have ne: "\<not> estimate (demo_jack\<lparr>estimate := False\<rparr>)" by simp
  have v: "av_fifo_size demo_fifo = 18" "bps demo_ao = 384000" "jack_latency demo_jack = 1 / 2"
    "callback_interval demo_jack = 1 / 4" "callback_time demo_jack = 0" "estimate demo_jack"
    by (simp_all add: demo_fifo_def demo_ao_def demo_jack_def av_fifo_size_def)
  have a: "get_delay demo_ao demo_jack 1000000 = Some (18 / 384000)"
    using get_delay_formula[OF h, of 1000000, THEN conjunct1] by (simp add: v)
  have b: "get_delay demo_ao (demo_jack\<lparr>estimate := False\<rparr>) 1000000 = Some (18 / 384000 + 1 / 2)"
    using get_delay_formula[OF h' h(2), of 1000000, THEN conjunct2, THEN conjunct1] ne by (simp add: v)
  have c: "get_delay demo_ao demo_jack 125000 = Some (claimed_delay demo_ao demo_jack demo_fifo 125000)"
    using get_delay_formula[OF h, of 125000, THEN conjunct2, THEN conjunct2] e by blast
  show ?thesis using h a b c by blast
qed

subsection \<open>C7: deinterleave is round-robin\<close>

text \<open>
  C7. A source of \<open>L = len div 4\<close> float samples is deinterleaved into \<open>N\<close> planes, from
  the start state \<open>{bufs, N, 0, 0}\<close> of \<open>read_buffer\<close>: the sample at index \<open>k\<close> lands in
  plane \<open>k mod N\<close> at position \<open>k div N\<close>, for all \<open>k < L\<close>, and every other position of
  every plane keeps its value. The planes hold \<open>cnt\<close> samples each and
  \<open>L \<le> cnt * N\<close>, so every write is inside its plane.
\<close>

theorem deinterleave_round_robin:
  assumes "0 < N" "len \<le> length src" "planes_ok bufs cnt N" "len div 4 \<le> cnt * N"
  shows "(\<forall>k < len div 4.
            di_bufs (deinterleave \<lparr>di_bufs = bufs, di_num_bufs = N, di_cur_buf = 0, di_pos = 0\<rparr> src len)
              ! (k mod N) ! (k div N) = floats_of src ! k)
       \<and> (\<forall>q j. (\<forall>k < len div 4. q \<noteq> k mod N \<or> j \<noteq> k div N) \<longrightarrow>
            di_bufs (deinterleave \<lparr>di_bufs = bufs, di_num_bufs = N, di_cur_buf = 0, di_pos = 0\<rparr> src len)
              ! q ! j = bufs ! q ! j)"
proof (intro conjI allI impI)
  fix k assume "k < len div 4"
  then show "di_bufs (deinterleave \<lparr>di_bufs = bufs, di_num_bufs = N, di_cur_buf = 0, di_pos = 0\<rparr> src len)
              ! (k mod N) ! (k div N) = floats_of src ! k"
    using assms by (simp add: deinterleave_nth)
next
  fix q j assume h: "\<forall>k < len div 4. q \<noteq> k mod N \<or> j \<noteq> k div N"
  let ?di = "\<lparr>di_bufs = bufs, di_num_bufs = N, di_cur_buf = 0, di_pos = 0\<rparr>"
  have "di_bufs (deinterleave ?di src len) ! q ! j = di_bufs ?di ! q ! j"
    by (rule deinterleave_frame) (use assms(1) h in \<open>auto simp: di_lin_def\<close>)
  then show "di_bufs (deinterleave ?di src len) ! q ! j = bufs ! q ! j" by simp
qed

theorem deinterleave_round_robin_witness:
  "di_bufs (deinterleave \<lparr>di_bufs = [[9, 9], [9, 9], [7, 7]], di_num_bufs = 2, di_cur_buf = 0, di_pos = 0\<rparr>
      [1,0,0,0, 2,0,0,0, 3,0,0,0, 4,0] 14) ! (2 mod 2) ! (2 div 2) = 3
   \<and> di_bufs (deinterleave \<lparr>di_bufs = [[9, 9], [9, 9], [7, 7]], di_num_bufs = 2, di_cur_buf = 0, di_pos = 0\<rparr>
      [1,0,0,0, 2,0,0,0, 3,0,0,0, 4,0] 14) ! 1 ! 1 = 9"
proof -
  have h: "(0::nat) < 2" "(14::nat) \<le> length [1,0,0,0, 2,0,0,0, 3,0,0,0, 4,0 :: byte]"
    "planes_ok [[9, 9], [9, 9], [7, 7]] 2 2" "(14::nat) div 4 \<le> 2 * 2"
    by (simp_all add: planes_ok_def)
  have k: "(2::nat) < 14 div 4" by simp
  have f: "\<forall>k < (14::nat) div 4. (1::nat) \<noteq> k mod 2 \<or> (1::nat) \<noteq> k div 2"
  proof (intro allI impI)
    fix k :: nat assume "k < 14 div 4"
    then have "k = 0 \<or> k = 1 \<or> k = 2" by auto
    then show "(1::nat) \<noteq> k mod 2 \<or> (1::nat) \<noteq> k div 2" by auto
  qed
  note t = deinterleave_round_robin[OF h]
  have a: "di_bufs (deinterleave \<lparr>di_bufs = [[9, 9], [9, 9], [7, 7]], di_num_bufs = 2, di_cur_buf = 0, di_pos = 0\<rparr>
      [1,0,0,0, 2,0,0,0, 3,0,0,0, 4,0] 14) ! (2 mod 2) ! (2 div 2)
      = floats_of [1,0,0,0, 2,0,0,0, 3,0,0,0, 4,0] ! 2"
    using t k by blast
  have b: "di_bufs (deinterleave \<lparr>di_bufs = [[9, 9], [9, 9], [7, 7]], di_num_bufs = 2, di_cur_buf = 0, di_pos = 0\<rparr>
      [1,0,0,0, 2,0,0,0, 3,0,0,0, 4,0] 14) ! 1 ! 1 = [[9, 9], [9, 9], [7, 7::sample]] ! 1 ! 1"
    using t f by blast
  show ?thesis using a b by (simp add: load_float_def)
qed

subsection \<open>C8: what is pushed is popped, in FIFO order\<close>

text \<open>
  C8 as the claim states it holds for every push that fits. The buffer is a queue: when
  it already holds bytes, a pop of as many bytes as were pushed yields the older bytes.
  Here the buffer holds the sample 1, the sample 2 is pushed, and the pop of one frame
  yields the sample 1.
\<close>

theorem push_pop_counterexample:
  "4 \<le> av_fifo_space \<lparr>contents = [1, 0, 0, 0], capacity = 8, rpos = 0\<rparr>
   \<and> write_buffer \<lparr>contents = [1, 0, 0, 0], capacity = 8, rpos = 0\<rparr> [2, 0, 0, 0] 4
       = (4, \<lparr>contents = [1, 0, 0, 0, 2, 0, 0, 0], capacity = 8, rpos = 0\<rparr>)
   \<and> read_buffer \<lparr>contents = [1, 0, 0, 0, 2, 0, 0, 0], capacity = 8, rpos = 0\<rparr> [[7]] 1 1
       = Some (1, [[1]], \<lparr>contents = [2, 0, 0, 0], capacity = 8, rpos = 4\<rparr>)
   \<and> bytes_of (interleave [[1]] 1 1) = [1, 0, 0, 0]
   \<and> bytes_of (interleave [[1]] 1 1) \<noteq> [2, 0, 0, 0]"
proof -
  have r: "av_fifo_generic_read \<lparr>contents = [1, 0, 0, 0, 2, 0, 0, 0], capacity = 8, rpos = 0\<rparr>
             \<lparr>di_bufs = [[7]], di_num_bufs = 1, di_cur_buf = 0, di_pos = 0\<rparr> 4 deinterleave
           = Some (\<lparr>contents = [2, 0, 0, 0], capacity = 8, rpos = 4\<rparr>,
                   \<lparr>di_bufs = [[1]], di_num_bufs = 1, di_cur_buf = 0, di_pos = 1\<rparr>)"
    by (subst av_fifo_generic_read.simps)
       (simp add: Let_def av_fifo_drain_def deinterleave_def deinterleave_step_def load_float_def)
  have b: "bytes_of (interleave [[1]] 1 1) = [1, 0, 0, 0]"
    by (simp add: bytes_of_def interleave_def store_float_def)
  show ?thesis using r b
    by (simp add: av_fifo_space_def av_fifo_size_def write_buffer_def av_fifo_generic_write_def
        read_buffer_def Let_def)
qed

text \<open>
  C8, amended. After a push of \<open>len\<close> bytes that fit, the queue is its earlier bytes
  followed by the pushed bytes, and a pop of \<open>cnt\<close> whole frames that the buffer holds
  returns \<open>cnt\<close> and fills the planes so that reading them back in round-robin order
  gives the first \<open>cnt * num_bufs * 4\<close> bytes of the queue, in order. So a push into an
  empty buffer followed by a pop of the same byte count, a whole number of frames, gives
  back exactly the pushed bytes. The buffer is well formed and aligned, as \<open>init\<close> makes it
  and every operation keeps it.
\<close>

theorem push_pop_fifo_order:
  assumes "fifo_wf f" "fifo_aligned f" "len \<le> length data" "len \<le> av_fifo_space f"
    and "planes_ok bufs cnt num_bufs" "cnt * num_bufs * 4 \<le> av_fifo_size f + len"
  shows "\<exists>f1 r f2. write_buffer f data len = (len, f1)
           \<and> contents f1 = contents f @ take len data
           \<and> read_buffer f1 bufs cnt num_bufs = Some (cnt, r, f2)
           \<and> bytes_of (interleave r cnt num_bufs) = take (cnt * num_bufs * 4) (contents f @ take len data)
           \<and> (contents f = [] \<and> cnt * num_bufs * 4 = len \<longrightarrow>
                 bytes_of (interleave r cnt num_bufs) = take len data)"
proof -
  let ?f1 = "f\<lparr>contents := contents f @ take len data\<rparr>"
  have w: "write_buffer f data len = (len, ?f1)" by (rule write_buffer_fits[OF assms(4)])
  have sz: "av_fifo_size ?f1 = av_fifo_size f + len" using assms(3) by (simp add: av_fifo_size_def)
  have wf1: "fifo_wf ?f1"
    using assms(1,3,4) by (auto simp: fifo_wf_def av_fifo_size_def av_fifo_space_def)
  have al1: "fifo_aligned ?f1" using assms(2) by (simp add: fifo_aligned_def)
  have le: "cnt * num_bufs * 4 \<le> av_fifo_size ?f1" using assms(6) sz by simp
  from read_buffer_full[OF wf1 al1 assms(5) le]
  obtain r where rb: "read_buffer ?f1 bufs cnt num_bufs = Some (cnt, r, av_fifo_drain ?f1 (cnt * num_bufs * 4))"
    and b: "bytes_of (interleave r cnt num_bufs) = take (cnt * num_bufs * 4) (contents ?f1)" by blast
  have e: "bytes_of (interleave r cnt num_bufs) = take len data"
    if "contents f = []" "cnt * num_bufs * 4 = len"
    using b that by simp
  show ?thesis using w rb b e by auto
qed

theorem push_pop_fifo_order_witness:
  "fifo_wf (av_fifo_alloc 16) \<and> fifo_aligned (av_fifo_alloc 16)
   \<and> (8::nat) \<le> length [1, 0, 0, 0, 2, 0, 0, 0 :: byte] \<and> 8 \<le> av_fifo_space (av_fifo_alloc 16)
   \<and> planes_ok [[7], [7]] 1 2 \<and> 1 * 2 * 4 \<le> av_fifo_size (av_fifo_alloc 16) + 8
   \<and> (\<exists>f1 r f2. write_buffer (av_fifo_alloc 16) [1, 0, 0, 0, 2, 0, 0, 0] 8 = (8, f1)
          \<and> read_buffer f1 [[7], [7]] 1 2 = Some (1, r, f2)
          \<and> bytes_of (interleave r 1 2) = [1, 0, 0, 0, 2, 0, 0, 0])"
proof -
  have h: "fifo_wf (av_fifo_alloc 16)" "fifo_aligned (av_fifo_alloc 16)"
    "(8::nat) \<le> length [1, 0, 0, 0, 2, 0, 0, 0 :: byte]" "8 \<le> av_fifo_space (av_fifo_alloc 16)"
    "planes_ok [[7], [7]] 1 2" "1 * 2 * 4 \<le> av_fifo_size (av_fifo_alloc 16) + 8"
    by (simp_all add: fifo_wf_def fifo_aligned_def av_fifo_alloc_def av_fifo_size_def av_fifo_space_def
        planes_ok_def)
  have c: "contents (av_fifo_alloc 16) = []" by (simp add: av_fifo_alloc_def)
  from push_pop_fifo_order[OF h]
  have "\<exists>f1 r f2. write_buffer (av_fifo_alloc 16) [1, 0, 0, 0, 2, 0, 0, 0] 8 = (8, f1)
          \<and> read_buffer f1 [[7], [7]] 1 2 = Some (1, r, f2)
          \<and> bytes_of (interleave r 1 2) = [1, 0, 0, 0, 2, 0, 0, 0]"
    by (simp add: c) blast
  then show ?thesis using h by blast
qed

subsection \<open>C9: the cadence tracker\<close>

text \<open>
  C9 as the claim states it compares the previously predicted fire time, the spec's
  \<open>last_predicted_fire_time\<close> (\<open>callback_time\<close>), with the current time. The code compares
  \<open>callback_time + callback_interval\<close> with the clock rounded to single precision.

  First input: \<open>callback_time = 1\<close>, \<open>callback_interval = 1/2\<close>, the clock at 1 s. The
  last predicted fire time is the current time, and the callback does not advance it to
  \<open>3/2\<close>: it leaves it at 1, the current time. (All values are exact in single precision.)

  Second input: \<open>callback_time = 20000\<close>, \<open>callback_interval = 1/64\<close>, the clock at
  20000.018 s. Neither \<open>callback_time\<close> nor \<open>callback_time + callback_interval\<close> is within
  0.002 s of the clock, and the callback advances \<open>callback_time\<close> by the period, to
  \<open>20000.015625\<close>: the clock is rounded to \<open>20000.017578125\<close>, which is 0.001953125 s
  from the predicted time.
\<close>

theorem callback_cadence_counterexample:
  "estimate (demo_jack\<lparr>callback_interval := 1 / 2, callback_time := 1\<rparr>)
   \<and> \<bar>callback_time (demo_jack\<lparr>callback_interval := 1 / 2, callback_time := 1\<rparr>)
        - real_of_int 1000000 / 1000000\<bar> < 0.002
   \<and> map_option (callback_time \<circ> snd)
         (outputaudio demo_ao (demo_jack\<lparr>callback_interval := 1 / 2, callback_time := 1\<rparr>)
            [[5, 5, 5], [6, 6, 6]] 3 1000000) = Some 1
   \<and> estimate (demo_jack\<lparr>callback_interval := 1 / 64, callback_time := 20000\<rparr>)
   \<and> 0.002 \<le> \<bar>callback_time (demo_jack\<lparr>callback_interval := 1 / 64, callback_time := 20000\<rparr>)
                - real_of_int 20000018000 / 1000000\<bar>
   \<and> 0.002 \<le> \<bar>callback_time (demo_jack\<lparr>callback_interval := 1 / 64, callback_time := 20000\<rparr>)
                + callback_interval (demo_jack\<lparr>callback_interval := 1 / 64, callback_time := 20000\<rparr>)
                - real_of_int 20000018000 / 1000000\<bar>
   \<and> map_option (callback_time \<circ> snd)
         (outputaudio demo_ao (demo_jack\<lparr>callback_interval := 1 / 64, callback_time := 20000\<rparr>)
            [[5, 5, 5], [6, 6, 6]] 3 20000018000) = Some (20000 + 1 / 64)"
proof -
  let ?A = "demo_jack\<lparr>callback_interval := 1 / 2, callback_time := 1\<rparr>"
  let ?B = "demo_jack\<lparr>callback_interval := 1 / 64, callback_time := 20000\<rparr>"
  have wf: "jack_wf ?A" "jack_wf ?B" "estimate ?A" "estimate ?B"
    by (simp_all add: jack_wf_def demo_jack_def fifo_wf_def demo_fifo_def av_fifo_size_def)
  have vA: "callback_time ?A = 1" "callback_interval ?A = 1 / 2" by simp_all
  have vB: "callback_time ?B = 20000" "callback_interval ?B = 1 / 64" by simp_all
  from outputaudio_cadence[OF wf(3) wf(1), of demo_ao "[[5, 5, 5], [6, 6, 6]]" 3 1000000]
  have a: "map_option (callback_time \<circ> snd)
         (outputaudio demo_ao ?A [[5, 5, 5], [6, 6, 6]] 3 1000000) = Some 1"
    unfolding vA fl_now_1s fl32_exact_values fl64_tolerance by auto
  from outputaudio_cadence[OF wf(4) wf(2), of demo_ao "[[5, 5, 5], [6, 6, 6]]" 3 20000018000]
  have b: "map_option (callback_time \<circ> snd)
         (outputaudio demo_ao ?B [[5, 5, 5], [6, 6, 6]] 3 20000018000) = Some (20000 + 1 / 64)"
    unfolding vB fl_now_20000 fl32_exact_values fl64_tolerance by auto
  show ?thesis using a b wf(3,4) by simp
qed

text \<open>
  C9, amended. With estimation enabled the callback returns and, all in single precision:
  \<open>now\<close> is the clock in seconds rounded to a \<open>float\<close>; the fire time predicted for this
  invocation is \<open>callback_time + callback_interval\<close>, the last predicted fire time plus the
  period; when the difference of the two, as the callback computes it, is strictly
  between -0.002 and 0.002 (the double constant), \<open>callback_time\<close> advances by the period
  \<open>callback_interval\<close>; otherwise \<open>callback_time\<close> becomes \<open>now\<close>; in both cases
  \<open>callback_interval\<close> is then \<open>nframes / samplerate\<close>. The sample rate is positive, as
  JACK reports it, and the buffer is well formed.
\<close>

theorem callback_cadence:
  assumes "estimate s" "0 < samplerate a" "jack_wf s"
  shows "\<exists>r s'. outputaudio a s bufs nframes time_us = Some (r, s')
           \<and> (\<bar>fl32 (fl32 (callback_time s + callback_interval s)
                     - fl32 (fl64 (fl64 (real_of_int time_us) / 1000000)))\<bar> < fl64 0.002 \<longrightarrow>
                 callback_time s' = fl32 (callback_time s + callback_interval s))
           \<and> (\<not> \<bar>fl32 (fl32 (callback_time s + callback_interval s)
                       - fl32 (fl64 (fl64 (real_of_int time_us) / 1000000)))\<bar> < fl64 0.002 \<longrightarrow>
                 callback_time s' = fl32 (fl64 (fl64 (real_of_int time_us) / 1000000)))
           \<and> callback_interval s' = fl32 (fl32 (real nframes) / fl32 (real (samplerate a)))"
  using outputaudio_cadence[OF assms(1,3), of a bufs nframes time_us] by auto

theorem callback_cadence_witness:
  "estimate demo_jack \<and> 0 < samplerate demo_ao \<and> jack_wf demo_jack
   \<and> (\<exists>r s'. outputaudio demo_ao demo_jack [[5, 5, 5], [6, 6, 6]] 3 250000 = Some (r, s')
          \<and> callback_time s' = 1 / 4 \<and> callback_interval s' = 8589935 / 137438953472)
   \<and> (\<exists>r s'. outputaudio demo_ao demo_jack [[5, 5, 5], [6, 6, 6]] 3 1000000 = Some (r, s')
          \<and> callback_time s' = 1 \<and> callback_interval s' = 8589935 / 137438953472)"
proof -
  have h: "estimate demo_jack" "0 < samplerate demo_ao" "jack_wf demo_jack"
    by (simp_all add: demo_jack_def demo_ao_def jack_wf_def fifo_wf_def demo_fifo_def av_fifo_size_def)
  have v: "callback_time demo_jack = 0" "callback_interval demo_jack = 1 / 4" "samplerate demo_ao = 48000"
    by (simp_all add: demo_jack_def demo_ao_def)
  have a: "\<exists>r s'. outputaudio demo_ao demo_jack [[5, 5, 5], [6, 6, 6]] 3 250000 = Some (r, s')
          \<and> callback_time s' = 1 / 4 \<and> callback_interval s' = 8589935 / 137438953472"
    using callback_cadence[OF h, of "[[5, 5, 5], [6, 6, 6]]" 3 250000]
    unfolding v fl_now_quarter fl32_exact_values fl64_tolerance fl32_period by simp
  have b: "\<exists>r s'. outputaudio demo_ao demo_jack [[5, 5, 5], [6, 6, 6]] 3 1000000 = Some (r, s')
          \<and> callback_time s' = 1 \<and> callback_interval s' = 8589935 / 137438953472"
    using callback_cadence[OF h, of "[[5, 5, 5], [6, 6, 6]]" 3 1000000]
    unfolding v fl_now_1s fl32_exact_values fl64_tolerance fl32_period by simp
  show ?thesis using h a b by blast
qed

subsection \<open>C10: pops are whole frames\<close>

text \<open>
  C10. \<open>read_buffer\<close> removes \<open>c * (num_bufs * 4)\<close> bytes from the front of the queue,
  \<open>c\<close> the frame count it returns; when the buffer is short, what stays is the
  sub-frame remainder, \<open>occupied mod (num_bufs * 4)\<close> bytes. Such an occupancy arises:
  a \<open>play\<close> of a final chunk pushes \<open>len\<close> bytes as they are, whatever \<open>len\<close> is (when
  they fit).
\<close>

theorem read_buffer_whole_frames:
  assumes "fifo_wf f"
  shows "(\<exists>c r f'. read_buffer f bufs cnt num_bufs = Some (c, r, f')
            \<and> contents f' = drop (c * (num_bufs * 4)) (contents f)
            \<and> av_fifo_size f = c * (num_bufs * 4) + av_fifo_size f'
            \<and> (av_fifo_size f < cnt * (num_bufs * 4) \<longrightarrow>
                  av_fifo_size f' = av_fifo_size f mod (num_bufs * 4)))
       \<and> (\<forall>a s data len. buffer s = Some f \<and> len \<le> length data \<and> len \<le> av_fifo_space f \<longrightarrow>
            (\<exists>s' f1. play a s data len True = Some (len, s') \<and> buffer s' = Some f1
                \<and> av_fifo_size f1 = av_fifo_size f + len))"
proof
  let ?short = "av_fifo_size f < cnt * 4 * num_bufs"
  let ?c = "if ?short then av_fifo_size f div 4 div num_bufs else cnt"
  let ?f' = "av_fifo_drain f (?c * num_bufs * 4)"
  from read_buffer_pop[OF assms, of bufs cnt num_bufs]
  obtain r where rb: "read_buffer f bufs cnt num_bufs = Some (?c, r, ?f')" by blast
  have le: "?c * (num_bufs * 4) \<le> av_fifo_size f"
  proof (cases ?short)
    case True
    then show ?thesis using short_count(1,2)[OF True] by (simp add: mult.assoc)
  next
    case False
    then show ?thesis by (simp add: mult.commute mult.left_commute)
  qed
  have ct: "contents ?f' = drop (?c * (num_bufs * 4)) (contents f)"
    by (simp add: av_fifo_drain_def mult.assoc)
  have sz: "av_fifo_size f = ?c * (num_bufs * 4) + av_fifo_size ?f'"
    using le by (simp add: av_fifo_size_def av_fifo_drain_def mult.assoc)
  have md: "av_fifo_size ?f' = av_fifo_size f mod (num_bufs * 4)" if "av_fifo_size f < cnt * (num_bufs * 4)"
  proof -
    have s: ?short using that by (simp add: mult.commute mult.left_commute)
    have "av_fifo_size ?f' = av_fifo_size f - av_fifo_size f div (num_bufs * 4) * (num_bufs * 4)"
      using s short_count(1)[OF s] by (simp add: av_fifo_size_def av_fifo_drain_def mult.assoc)
    then show ?thesis by (simp add: minus_div_mult_eq_mod)
  qed
  show "\<exists>c r f'. read_buffer f bufs cnt num_bufs = Some (c, r, f')
            \<and> contents f' = drop (c * (num_bufs * 4)) (contents f)
            \<and> av_fifo_size f = c * (num_bufs * 4) + av_fifo_size f'
            \<and> (av_fifo_size f < cnt * (num_bufs * 4) \<longrightarrow>
                  av_fifo_size f' = av_fifo_size f mod (num_bufs * 4))"
    using rb ct sz md by blast
next
  show "\<forall>a s data len. buffer s = Some f \<and> len \<le> length data \<and> len \<le> av_fifo_space f \<longrightarrow>
            (\<exists>s' f1. play a s data len True = Some (len, s') \<and> buffer s' = Some f1
                \<and> av_fifo_size f1 = av_fifo_size f + len)"
  proof (intro allI impI)
    fix a :: ao and s :: jack and data :: "byte list" and len :: nat
    assume h: "buffer s = Some f \<and> len \<le> length data \<and> len \<le> av_fifo_space f"
    have w: "write_buffer f data len = (len, f\<lparr>contents := contents f @ take len data\<rparr>)"
      using h by (simp add: write_buffer_def av_fifo_generic_write_def Let_def)
    have "av_fifo_size (f\<lparr>contents := contents f @ take len data\<rparr>) = av_fifo_size f + len"
      using h by (simp add: av_fifo_size_def)
    then show "\<exists>s' f1. play a s data len True = Some (len, s') \<and> buffer s' = Some f1
                \<and> av_fifo_size f1 = av_fifo_size f + len"
      using h w by (simp add: play_final)
  qed
qed

theorem read_buffer_whole_frames_witness:
  "fifo_wf odd_fifo
   \<and> (\<exists>c r f'. read_buffer odd_fifo [[7, 7]] 2 1 = Some (c, r, f')
          \<and> contents f' = drop (c * (1 * 4)) (contents odd_fifo)
          \<and> av_fifo_size f' = 2)
   \<and> (\<exists>s' f1. play demo_ao (demo_jack\<lparr>buffer := Some odd_fifo\<rparr>) [9, 9, 9] 3 True = Some (3, s')
          \<and> buffer s' = Some f1 \<and> av_fifo_size f1 = 9)"
proof -
  have h: "fifo_wf odd_fifo" by (simp add: fifo_wf_def odd_fifo_def av_fifo_size_def)
  note t = read_buffer_whole_frames[OF h, of "[[7, 7]]" 2 1]
  have sz: "av_fifo_size odd_fifo = 6" by (simp add: odd_fifo_def av_fifo_size_def)
  have "\<exists>c r f'. read_buffer odd_fifo [[7, 7]] 2 1 = Some (c, r, f')
          \<and> contents f' = drop (c * (1 * 4)) (contents odd_fifo)
          \<and> av_fifo_size f' = 2"
    using t[THEN conjunct1] by (simp add: sz) blast
  moreover have "buffer (demo_jack\<lparr>buffer := Some odd_fifo\<rparr>) = Some odd_fifo
       \<and> (3::nat) \<le> length [9, 9, 9 :: byte] \<and> 3 \<le> av_fifo_space odd_fifo"
    by (simp add: av_fifo_space_def sz) (simp add: odd_fifo_def)
  then have "\<exists>s' f1. play demo_ao (demo_jack\<lparr>buffer := Some odd_fifo\<rparr>) [9, 9, 9] 3 True = Some (3, s')
          \<and> buffer s' = Some f1 \<and> av_fifo_size f1 = 9"
    using t[THEN conjunct2, rule_format, of "demo_jack\<lparr>buffer := Some odd_fifo\<rparr>" 3 "[9, 9, 9]" demo_ao]
    by (simp add: sz)
  ultimately show ?thesis using h by blast
qed

end
